theory Spec2Isabelle
  imports Main "HOL-Library.Sublist"
begin

section \<open>Data model\<close>

text \<open>
  A JavaScript string is the list of its UTF-16 code units, each a number below 65536.
  \<open>js\<close> writes a string literal of the source as such a list.
\<close>

type_synonym jsstring = "nat list"

definition js :: "string \<Rightarrow> jsstring" where
  "js s = map of_char s"

text \<open>
  The part of \<^verbatim>\<open>WordPressPost\<close> that the AI service reads: the numeric id and the
  rendered title (both go into the scoring prompt).
\<close>

record WordPressPost =
  post_id :: int
  title_rendered :: jsstring

datatype AiProvider = Gemini | OpenAI | Anthropic | OpenRouter

definition SCORE_BATCH_SIZE :: nat where
  "SCORE_BATCH_SIZE = 8"

definition MAX_CONCURRENT_REQUESTS :: nat where
  "MAX_CONCURRENT_REQUESTS = 6"

section \<open>Partition of the posts into batches\<close>

text \<open>
  \<^verbatim>\<open>posts.slice(i, j)\<close> for indices \<open>0 \<le> i\<close>, \<open>0 \<le> j\<close>: the elements at positions
  \<open>i, ..., j - 1\<close> that exist; empty when \<open>j \<le> i\<close> or \<open>i\<close> is past the end.
\<close>

definition slice :: "'a list \<Rightarrow> nat \<Rightarrow> nat \<Rightarrow> 'a list" where
  "slice xs i j = take (j - i) (drop i xs)"

text \<open>
  The loop \<^verbatim>\<open>for (let i = 0; i < posts.length; i += SCORE_BATCH_SIZE)
  postBatches.push(posts.slice(i, i + SCORE_BATCH_SIZE))\<close> of \<^verbatim>\<open>getOpportunityScores\<close>,
  with the loop variable and the array built so far as arguments.
\<close>

function postBatches_loop :: "'a list \<Rightarrow> nat \<Rightarrow> 'a list list \<Rightarrow> 'a list list" where
  "postBatches_loop posts i postBatches =
     (if i < length posts
      then postBatches_loop posts (i + SCORE_BATCH_SIZE)
             (postBatches @ [slice posts i (i + SCORE_BATCH_SIZE)])
      else postBatches)"
  by pat_completeness auto
termination
  by (relation "measure (\<lambda>(posts, i, postBatches). length posts - i)")
     (auto simp: SCORE_BATCH_SIZE_def)

definition postBatches :: "'a list \<Rightarrow> 'a list list" where
  "postBatches posts = postBatches_loop posts 0 []"

declare postBatches_loop.simps [simp del]

subsection \<open>Properties of the partition\<close>

lemma postBatches_loop_step:
  "i < length posts \<Longrightarrow>
   postBatches_loop posts i acc =
     postBatches_loop posts (i + SCORE_BATCH_SIZE) (acc @ [slice posts i (i + SCORE_BATCH_SIZE)])"
  by (subst postBatches_loop.simps) simp

lemma postBatches_loop_stop:
  "\<not> i < length posts \<Longrightarrow> postBatches_loop posts i acc = acc"
  by (subst postBatches_loop.simps) simp

lemma postBatches_loop_acc:
  "postBatches_loop posts i acc = acc @ postBatches_loop posts i []"
proof (induction "length posts - i" arbitrary: i acc rule: less_induct)
  case less
  show ?case
  proof (cases "i < length posts")
    case True
    let ?s = "slice posts i (i + SCORE_BATCH_SIZE)"
    let ?j = "i + SCORE_BATCH_SIZE"
    have smaller: "length posts - ?j < length posts - i"
      using True by (simp add: SCORE_BATCH_SIZE_def)
    have "postBatches_loop posts i acc = (acc @ [?s]) @ postBatches_loop posts ?j []"
      using less [OF smaller, of "acc @ [?s]"] postBatches_loop_step [OF True, of acc] by simp
    moreover have "postBatches_loop posts i [] = [?s] @ postBatches_loop posts ?j []"
      using less [OF smaller, of "[?s]"] postBatches_loop_step [OF True, of "[]"] by simp
    ultimately show ?thesis by simp
  next
    case False
    then show ?thesis by (simp add: postBatches_loop_stop)
  qed
qed

lemma postBatches_loop_unfold:
  "i < length posts \<Longrightarrow>
   postBatches_loop posts i [] =
     slice posts i (i + SCORE_BATCH_SIZE) # postBatches_loop posts (i + SCORE_BATCH_SIZE) []"
  using postBatches_loop_step [of i posts "[]"]
        postBatches_loop_acc [of posts "i + SCORE_BATCH_SIZE" "[slice posts i (i + SCORE_BATCH_SIZE)]"]
  by simp

lemma concat_postBatches_loop:
  "concat (postBatches_loop posts i []) = drop i posts"
proof (induction "length posts - i" arbitrary: i rule: less_induct)
  case less
  show ?case
  proof (cases "i < length posts")
    case True
    have smaller: "length posts - (i + SCORE_BATCH_SIZE) < length posts - i"
      using True by (simp add: SCORE_BATCH_SIZE_def)
    have "concat (postBatches_loop posts i []) =
          take SCORE_BATCH_SIZE (drop i posts) @ drop (i + SCORE_BATCH_SIZE) posts"
      using less [OF smaller] by (simp add: postBatches_loop_unfold [OF True] slice_def)
    also have "\<dots> = drop i posts"
      by (metis add.commute append_take_drop_id drop_drop)
    finally show ?thesis .
  next
    case False
    then show ?thesis by (simp add: postBatches_loop_stop)
  qed
qed

lemma ceil_div_8_step:
  "0 < (d::nat) \<Longrightarrow> Suc ((d - 8 + 7) div 8) = (d + 7) div 8"
proof (cases "8 \<le> d")
  case True
  then obtain e where "d = e + 8" by (metis le_add_diff_inverse2)
  then show ?thesis by simp
next
  case False
  assume "0 < d"
  with False have "d - 8 = 0" "8 \<le> d + 7" "d + 7 < 16" by simp_all
  then show ?thesis by (simp add: div_nat_eqI)
qed

lemma length_postBatches_loop:
  "length (postBatches_loop posts i []) = (length posts - i + 7) div 8"
proof (induction "length posts - i" arbitrary: i rule: less_induct)
  case less
  show ?case
  proof (cases "i < length posts")
    case True
    have smaller: "length posts - (i + SCORE_BATCH_SIZE) < length posts - i"
      using True by (simp add: SCORE_BATCH_SIZE_def)
    have "length (postBatches_loop posts i []) = Suc ((length posts - (i + 8) + 7) div 8)"
      using less [OF smaller] by (simp add: postBatches_loop_unfold [OF True] SCORE_BATCH_SIZE_def)
    also have "\<dots> = (length posts - i + 7) div 8"
      using True ceil_div_8_step [of "length posts - i"] by simp
    finally show ?thesis .
  next
    case False
    then show ?thesis by (simp add: postBatches_loop_stop)
  qed
qed

lemma nth_postBatches_loop:
  "k < length (postBatches_loop posts i []) \<Longrightarrow>
   postBatches_loop posts i [] ! k = slice posts (i + 8 * k) (i + 8 * k + 8)"
proof (induction k arbitrary: i)
  case 0
  then have "i < length posts"
    by (metis list.size(3) not_less_zero postBatches_loop_stop)
  then show ?case
    by (simp add: postBatches_loop_unfold SCORE_BATCH_SIZE_def)
next
  case (Suc k)
  then have lt: "i < length posts"
    by (metis list.size(3) not_less_zero postBatches_loop_stop)
  from Suc.prems have "k < length (postBatches_loop posts (i + SCORE_BATCH_SIZE) [])"
    by (simp add: postBatches_loop_unfold [OF lt])
  from Suc.IH [OF this] show ?case
    by (simp add: postBatches_loop_unfold [OF lt] SCORE_BATCH_SIZE_def add.assoc)
qed

lemma ceil_div_8_bounds:
  "(n::nat) \<le> 8 * ((n + 7) div 8) \<and> 8 * ((n + 7) div 8) < n + 8"
proof -
  have "(n + 7) = 8 * ((n + 7) div 8) + (n + 7) mod 8" by simp
  moreover have "(n + 7) mod 8 < 8" by simp
  ultimately show ?thesis by linarith
qed

text \<open>
  C2. For a collection of \<open>N\<close> posts the partition has \<open>ceil (N / 8)\<close> batches (the number
  \<open>L\<close> with \<open>N \<le> 8 L < N + 8\<close>), batch \<open>k\<close> is the slice of the input at positions
  \<open>8 k, ..., 8 k + 7\<close>, the batches concatenated in batch order are the input, and when the
  input posts have pairwise different ids no id occurs twice across the batches and two
  different batches share no post.
\<close>

theorem postBatches_partition:
  fixes posts :: "WordPressPost list"
  shows "length (postBatches posts) = (length posts + 7) div 8
    \<and> length posts \<le> 8 * length (postBatches posts)
    \<and> 8 * length (postBatches posts) < length posts + 8
    \<and> concat (postBatches posts) = posts
    \<and> (\<forall>k < length (postBatches posts).
          postBatches posts ! k = slice posts (8 * k) (8 * k + 8))
    \<and> (distinct (map post_id posts) \<longrightarrow>
          distinct (concat (map (map post_id) (postBatches posts)))
          \<and> (\<forall>i j. i < j \<and> j < length (postBatches posts) \<longrightarrow>
                set (postBatches posts ! i) \<inter> set (postBatches posts ! j) = {}))"
proof -
  let ?bs = "postBatches posts"
  have len: "length ?bs = (length posts + 7) div 8"
    by (simp add: postBatches_def length_postBatches_loop)
  have cat: "concat ?bs = posts"
    by (simp add: postBatches_def concat_postBatches_loop)
  have nth: "\<forall>k < length ?bs. ?bs ! k = slice posts (8 * k) (8 * k + 8)"
    using nth_postBatches_loop [of _ posts 0] by (simp add: postBatches_def)
  have ids: "distinct (concat (map (map post_id) ?bs))" if "distinct (map post_id posts)"
    using that cat by (simp add: map_concat [symmetric])
  have nonempty: "?bs ! k \<noteq> []" if "k < length ?bs" for k
  proof -
    have "8 * k < length posts"
      using that len ceil_div_8_bounds [of "length posts"] by simp
    then show ?thesis
      using nth that by (simp add: slice_def)
  qed
  have disj: "set (?bs ! i) \<inter> set (?bs ! j) = {}"
    if d: "distinct (map post_id posts)" and ij: "i < j" "j < length ?bs" for i j
  proof -
    from d have "distinct posts" by (simp add: distinct_map)
    with cat have dc: "distinct (concat ?bs)" by simp
    have "[] \<notin> set ?bs"
      using nonempty by (metis in_set_conv_nth)
    then have "removeAll [] ?bs = ?bs" by simp
    with dc have dbs: "distinct ?bs"
      by (simp add: distinct_concat_iff)
    have i: "i < length ?bs" using ij by simp
    have "?bs ! i \<noteq> ?bs ! j"
      using dbs i ij by (simp add: nth_eq_iff_index_eq)
    moreover have "?bs ! i \<in> set ?bs" "?bs ! j \<in> set ?bs"
      using i ij by simp_all
    ultimately show ?thesis
      using dc unfolding distinct_concat_iff by blast
  qed
  show ?thesis
    using len cat nth ids disj ceil_div_8_bounds [of "length posts"] by auto
qed

theorem postBatches_partition_witness:
  "distinct (map post_id (map (\<lambda>n. \<lparr>post_id = n, title_rendered = js ''p''\<rparr>) [1, 2, 3, 4, 5, 6, 7, 8, 9]))
   \<and> (1::nat) < length (postBatches (map (\<lambda>n. \<lparr>post_id = n, title_rendered = js ''p''\<rparr>) [1, 2, 3, 4, 5, 6, 7, 8, 9]))
   \<and> postBatches (map (\<lambda>n. \<lparr>post_id = n, title_rendered = js ''p''\<rparr>) [1, 2, 3, 4, 5, 6, 7, 8, 9]) ! 1
        = [\<lparr>post_id = 9, title_rendered = js ''p''\<rparr>]
   \<and> set (postBatches (map (\<lambda>n. \<lparr>post_id = n, title_rendered = js ''p''\<rparr>) [1, 2, 3, 4, 5, 6, 7, 8, 9]) ! 0)
       \<inter> set (postBatches (map (\<lambda>n. \<lparr>post_id = n, title_rendered = js ''p''\<rparr>) [1, 2, 3, 4, 5, 6, 7, 8, 9]) ! 1) = {}"
proof -
  let ?ps = "map (\<lambda>n. \<lparr>post_id = n, title_rendered = js ''p''\<rparr>) [1, 2, 3, 4, 5, 6, 7, 8, 9 :: int]"
  have d: "distinct (map post_id ?ps)" by simp
  have l: "(length ?ps + 7) div 8 = 2" by simp
  note t = postBatches_partition [of ?ps]
  from t l have len: "length (postBatches ?ps) = 2" by simp
  from t len have n1: "postBatches ?ps ! 1 = slice ?ps 8 16" by simp
  from t d len have "set (postBatches ?ps ! 0) \<inter> set (postBatches ?ps ! 1) = {}"
    by (metis one_less_numeral_iff semiring_norm(76) zero_less_one)
  with d len n1 show ?thesis by (simp add: slice_def)
qed

section \<open>The regular expressions of the stream cleaner\<close>

text \<open>
  \<open>is_space\<close> is the class \<^verbatim>\<open>\s\<close> of the regular expressions, which is also the set of
  characters removed by \<^verbatim>\<open>trim\<close>: the white space and line terminator code points of
  ECMAScript.
\<close>

definition is_space :: "nat \<Rightarrow> bool" where
  "is_space c \<longleftrightarrow>
     c \<in> {9, 10, 11, 12, 13, 32, 160, 5760, 8232, 8233, 8239, 8287, 12288, 65279}
     \<or> (8192 \<le> c \<and> c \<le> 8202)"

text \<open>The fence marker: three backticks (code unit 96).\<close>

definition FENCE :: jsstring where
  "FENCE = [96, 96, 96]"

text \<open>
  The letters \<^verbatim>\<open>html\<close> under the flag \<^verbatim>\<open>i\<close>: each letter in either case. (The backtick has
  no other case, and no character outside ASCII is canonicalised to an ASCII letter, so this
  is the whole effect of the flag on the patterns below.)
\<close>

definition is_html_ci :: "jsstring \<Rightarrow> bool" where
  "is_html_ci t \<longleftrightarrow>
     list_all2 (\<lambda>c alts. c \<in> set alts) t [js ''hH'', js ''tT'', js ''mM'', js ''lL'']"

text \<open>
  \<^verbatim>\<open>s.replace(/^\s*```html\s*/i, '')\<close> and \<^verbatim>\<open>s.replace(/^\s*```\s*/i, '')\<close>: the match is
  anchored at the start; the first \<^verbatim>\<open>\s*\<close> takes all leading white space (giving some of it
  back cannot help, since a backtick is not white space), then the literal must follow, and
  the second \<^verbatim>\<open>\s*\<close> takes all white space after it. Without a match the string is returned
  as it is.
\<close>

definition replace_leading_html :: "jsstring \<Rightarrow> jsstring" where
  "replace_leading_html s =
     (let r = dropWhile is_space s
      in if prefix FENCE r \<and> is_html_ci (take 4 (drop 3 r))
         then dropWhile is_space (drop 7 r) else s)"

definition replace_leading_fence :: "jsstring \<Rightarrow> jsstring" where
  "replace_leading_fence s =
     (let r = dropWhile is_space s
      in if prefix FENCE r then dropWhile is_space (drop 3 r) else s)"

text \<open>
  \<^verbatim>\<open>s.replace(/```\s*$/, '')\<close>: the leftmost position at which three backticks are followed by
  white space only up to the end of the string; the match reaches the end, so the string is
  cut there. Without such a position the string is returned as it is.
\<close>

fun replace_trailing :: "jsstring \<Rightarrow> jsstring" where
  "replace_trailing [] = []"
| "replace_trailing (c # cs) =
     (if prefix FENCE (c # cs) \<and> list_all is_space (drop 3 (c # cs)) then []
      else c # replace_trailing cs)"

text \<open>\<^verbatim>\<open>cleanStreamChunk(chunk, isFirstChunk)\<close>.\<close>

definition cleanStreamChunk :: "jsstring \<Rightarrow> bool \<Rightarrow> jsstring" where
  "cleanStreamChunk chunk isFirstChunk =
     (let clean = (if isFirstChunk
                   then replace_leading_fence (replace_leading_html chunk)
                   else chunk)
      in replace_trailing clean)"

subsection \<open>Properties of the stream cleaner\<close>

lemma not_space_backtick: "\<not> is_space (96::nat)"
  by (simp add: is_space_def)

lemma length_FENCE [simp]: "length FENCE = 3"
  by (simp add: FENCE_def)

lemma FENCE_last: "FENCE = [FENCE ! 0, FENCE ! 1, (96::nat)]"
  by (simp add: FENCE_def)

lemma replace_trailing_no_fence:
  "\<not> sublist FENCE s \<Longrightarrow> replace_trailing s = s"
proof (induction s)
  case Nil
  show ?case by simp
next
  case (Cons c cs)
  from Cons.prems have np: "\<not> prefix FENCE (c # cs)"
    using prefix_imp_sublist by blast
  from Cons.prems have "\<not> sublist FENCE cs"
    by (simp add: sublist_Cons_right)
  then have "replace_trailing cs = cs" by (rule Cons.IH)
  with np show ?case by simp
qed

lemma replace_trailing_cut:
  "\<exists>suf. s = replace_trailing s @ suf \<and>
         (suf = [] \<or> (\<exists>ws. suf = FENCE @ ws \<and> list_all is_space ws))"
proof (induction s)
  case Nil
  show ?case by simp
next
  case (Cons c cs)
  show ?case
  proof (cases "prefix FENCE (c # cs) \<and> list_all is_space (drop 3 (c # cs))")
    case True
    then obtain zs where zs: "c # cs = FENCE @ zs" by (auto simp: prefix_def)
    then have "drop 3 (c # cs) = zs" by simp
    with True have "list_all is_space zs" by simp
    moreover from True have "replace_trailing (c # cs) = []" by simp
    ultimately have "c # cs = replace_trailing (c # cs) @ (FENCE @ zs) \<and> list_all is_space zs"
      using zs by simp
    then show ?thesis by blast
  next
    case False
    then have "replace_trailing (c # cs) = c # replace_trailing cs" by simp
    moreover from Cons.IH obtain suf where "cs = replace_trailing cs @ suf"
      "suf = [] \<or> (\<exists>ws. suf = FENCE @ ws \<and> list_all is_space ws)" by blast
    ultimately have "c # cs = replace_trailing (c # cs) @ suf \<and>
        (suf = [] \<or> (\<exists>ws. suf = FENCE @ ws \<and> list_all is_space ws))" by simp
    then show ?thesis by blast
  qed
qed

lemma backtick_in_drop:
  assumes n: "n \<le> length body + 2"
  shows "(96::nat) \<in> set (drop n (body @ FENCE @ ws))"
proof -
  define k where "k = n - length body"
  have "k \<le> 2" using n by (simp add: k_def)
  then have "k = 0 \<or> k = 1 \<or> k = 2" by arith
  then have "(96::nat) \<in> set (drop k ([FENCE ! 0, FENCE ! 1, (96::nat)] @ ws))"
    by auto
  then have "(96::nat) \<in> set (drop k (FENCE @ ws))"
    by (subst FENCE_last)
  then have "(96::nat) \<in> set (drop n body @ drop k (FENCE @ ws))"
    by simp
  then show ?thesis unfolding k_def by (simp only: drop_append)
qed

lemma replace_trailing_fence:
  "list_all is_space ws \<Longrightarrow> replace_trailing (body @ FENCE @ ws) = body"
proof (induction body)
  case Nil
  have "FENCE @ ws = (96::nat) # (tl FENCE @ ws)" by (simp add: FENCE_def)
  moreover have "drop 3 (FENCE @ ws) = ws" by simp
  ultimately show ?case using Nil
    by (metis append_Nil prefixI replace_trailing.simps(2))
next
  case (Cons c body)
  have "(96::nat) \<in> set (drop 3 ((c # body) @ FENCE @ ws))"
    using backtick_in_drop [of 3 "c # body" ws] by simp
  then have "\<not> list_all is_space (drop 3 ((c # body) @ FENCE @ ws))"
    using not_space_backtick by (metis list_all_iff)
  then show ?case using Cons by simp
qed


lemma FENCE_Cons: "FENCE = (96::nat) # tl FENCE"
  by (simp add: FENCE_def)

lemma prefix_FENCE_backtick: "prefix FENCE r \<Longrightarrow> prefix [(96::nat)] r"
proof -
  assume "prefix FENCE r"
  then obtain zs where "r = FENCE @ zs" by (auto simp: prefix_def)
  then have "r = (96::nat) # (tl FENCE @ zs)" using FENCE_Cons by (metis append_Cons)
  then show ?thesis by simp
qed

lemma replace_leading_no_backtick:
  assumes "\<not> prefix [(96::nat)] (dropWhile is_space s)"
  shows "replace_leading_fence (replace_leading_html s) = s"
proof -
  have np: "\<not> prefix FENCE (dropWhile is_space s)"
    using assms prefix_FENCE_backtick by blast
  then have "replace_leading_html s = s"
    by (simp add: replace_leading_html_def)
  moreover from np have "replace_leading_fence s = s"
    by (simp add: replace_leading_fence_def)
  ultimately show ?thesis by simp
qed

lemma dropWhile_space_fence:
  "list_all is_space ws \<Longrightarrow> dropWhile is_space (ws @ FENCE @ rest) = FENCE @ rest"
proof -
  assume "list_all is_space ws"
  then have "dropWhile is_space (ws @ FENCE @ rest) = dropWhile is_space (FENCE @ rest)"
    by (simp add: dropWhile_append2 list_all_iff)
  also have "\<dots> = dropWhile is_space ((96::nat) # (tl FENCE @ rest))"
    using FENCE_Cons by (metis append_Cons)
  also have "\<dots> = (96::nat) # (tl FENCE @ rest)"
    by (simp add: not_space_backtick)
  also have "\<dots> = FENCE @ rest"
    using FENCE_Cons by (metis append_Cons)
  finally show ?thesis .
qed

lemma dropWhile_space_idem: "dropWhile is_space (dropWhile is_space s) = dropWhile is_space s"
  by (simp add: dropWhile_idem)

lemma replace_leading_fence_stripped:
  "\<not> prefix FENCE (dropWhile is_space rest) \<Longrightarrow>
   replace_leading_fence (dropWhile is_space rest) = dropWhile is_space rest"
  by (simp add: replace_leading_fence_def dropWhile_space_idem)

lemma replace_leading_tagged:
  assumes ws: "list_all is_space ws" and tag: "is_html_ci tag"
  shows "replace_leading_html (ws @ FENCE @ tag @ rest) = dropWhile is_space rest"
proof -
  have len: "length tag = 4"
    using tag by (auto simp: is_html_ci_def dest: list_all2_lengthD)
  have r: "dropWhile is_space (ws @ FENCE @ tag @ rest) = FENCE @ tag @ rest"
    using ws by (rule dropWhile_space_fence)
  have "take 4 (drop 3 (FENCE @ tag @ rest)) = tag" "drop 7 (FENCE @ tag @ rest) = rest"
    using len by simp_all
  then show ?thesis
    unfolding replace_leading_html_def r Let_def using tag by simp
qed

lemma replace_leading_plain:
  assumes ws: "list_all is_space ws"
  shows "replace_leading_fence (ws @ FENCE @ rest) = dropWhile is_space rest"
proof -
  have r: "dropWhile is_space (ws @ FENCE @ rest) = FENCE @ rest"
    using ws by (rule dropWhile_space_fence)
  show ?thesis
    unfolding replace_leading_fence_def r Let_def by simp
qed

lemma replace_leading_untagged:
  assumes ws: "list_all is_space ws" and tag: "\<not> is_html_ci (take 4 rest)"
  shows "replace_leading_html (ws @ FENCE @ rest) = ws @ FENCE @ rest"
proof -
  have r: "dropWhile is_space (ws @ FENCE @ rest) = FENCE @ rest"
    using ws by (rule dropWhile_space_fence)
  show ?thesis
    unfolding replace_leading_html_def r Let_def using tag by simp
qed

lemma cleanStreamChunk_example1:
  "cleanStreamChunk (js ''```html'' @ [10] @ js ''<div>'') True = js ''<div>''"
  by (simp add: cleanStreamChunk_def replace_leading_html_def replace_leading_fence_def
        FENCE_def is_html_ci_def is_space_def js_def)

lemma cleanStreamChunk_example2:
  "cleanStreamChunk (js ''</div>```'') False = js ''</div>''"
  by (simp add: cleanStreamChunk_def FENCE_def js_def)


lemma dropWhile_space_body:
  "dropWhile is_space body = c # r \<Longrightarrow> dropWhile is_space (body @ zs) = c # r @ zs"
proof (induction body)
  case Nil
  then show ?case by simp
next
  case (Cons b body)
  then show ?case by (cases "is_space b") simp_all
qed

text \<open>
  C6. The two examples of the specification; a chunk without a fence marker passes a
  non-first call unchanged; a non-first call only ever cuts a tail, and that tail is a fence
  marker followed by white space; a fence marker (and the white space after it) at the end
  of a chunk is cut on every chunk; on a first chunk a fence marker at the start, after
  optional white space and with or without the tag \<^verbatim>\<open>html\<close> in any case, is removed
  together with the white space around it; and on a first chunk whose first character after
  white space is not a backtick nothing is removed at the start.
\<close>

theorem cleanStreamChunk_fences:
  "cleanStreamChunk (js ''```html'' @ [10] @ js ''<div>'') True = js ''<div>''
   \<and> cleanStreamChunk (js ''</div>```'') False = js ''</div>''
   \<and> (\<not> sublist FENCE chunk \<longrightarrow> cleanStreamChunk chunk False = chunk)
   \<and> (\<exists>suf. chunk = cleanStreamChunk chunk False @ suf
         \<and> (suf = [] \<or> (\<exists>sp. suf = FENCE @ sp \<and> list_all is_space sp)))
   \<and> (list_all is_space ws \<longrightarrow> cleanStreamChunk (body @ FENCE @ ws) False = body)
   \<and> (list_all is_space ws \<and> (\<exists>c r. dropWhile is_space body = c # r \<and> c \<noteq> 96)
        \<longrightarrow> cleanStreamChunk (body @ FENCE @ ws) True = body)
   \<and> (list_all is_space ws \<and> is_html_ci tag \<and> \<not> prefix FENCE (dropWhile is_space rest)
        \<longrightarrow> cleanStreamChunk (ws @ FENCE @ tag @ rest) True
            = cleanStreamChunk (dropWhile is_space rest) False)
   \<and> (list_all is_space ws \<and> \<not> is_html_ci (take 4 rest)
        \<longrightarrow> cleanStreamChunk (ws @ FENCE @ rest) True
            = cleanStreamChunk (dropWhile is_space rest) False)
   \<and> (\<not> prefix [96] (dropWhile is_space chunk)
        \<longrightarrow> cleanStreamChunk chunk True = cleanStreamChunk chunk False)"
proof -
  have c3: "\<not> sublist FENCE chunk \<longrightarrow> cleanStreamChunk chunk False = chunk"
    by (simp add: cleanStreamChunk_def replace_trailing_no_fence)
  have c4: "\<exists>suf. chunk = cleanStreamChunk chunk False @ suf
         \<and> (suf = [] \<or> (\<exists>sp. suf = FENCE @ sp \<and> list_all is_space sp))"
    using replace_trailing_cut [of chunk] by (simp add: cleanStreamChunk_def)
  have c5: "list_all is_space ws \<longrightarrow> cleanStreamChunk (body @ FENCE @ ws) False = body"
    by (simp add: cleanStreamChunk_def replace_trailing_fence)
  have c6: "cleanStreamChunk (body @ FENCE @ ws) True = body"
    if ws: "list_all is_space ws" and b: "dropWhile is_space body = c # r" "c \<noteq> 96" for c r
  proof -
    have "dropWhile is_space (body @ FENCE @ ws) = c # r @ FENCE @ ws"
      using b(1) by (rule dropWhile_space_body)
    then have "\<not> prefix [96] (dropWhile is_space (body @ FENCE @ ws))"
      using b(2) by simp
    then have "replace_leading_fence (replace_leading_html (body @ FENCE @ ws)) = body @ FENCE @ ws"
      by (rule replace_leading_no_backtick)
    then show ?thesis
      using ws by (simp add: cleanStreamChunk_def replace_trailing_fence)
  qed
  have c7: "cleanStreamChunk (ws @ FENCE @ tag @ rest) True
            = cleanStreamChunk (dropWhile is_space rest) False"
    if "list_all is_space ws" "is_html_ci tag" "\<not> prefix FENCE (dropWhile is_space rest)"
    using that
    by (simp add: cleanStreamChunk_def replace_leading_tagged replace_leading_fence_stripped)
  have c8: "cleanStreamChunk (ws @ FENCE @ rest) True
            = cleanStreamChunk (dropWhile is_space rest) False"
    if "list_all is_space ws" "\<not> is_html_ci (take 4 rest)"
    using that
    by (simp add: cleanStreamChunk_def replace_leading_untagged replace_leading_plain)
  have c9: "\<not> prefix [96] (dropWhile is_space chunk)
        \<longrightarrow> cleanStreamChunk chunk True = cleanStreamChunk chunk False"
    by (simp add: cleanStreamChunk_def replace_leading_no_backtick)
  show ?thesis
    using cleanStreamChunk_example1 cleanStreamChunk_example2 c3 c4 c5 c6 c7 c8 c9
    by blast
qed

theorem cleanStreamChunk_fences_witness:
  "\<not> sublist FENCE (js ''<span>mid</span>'')
   \<and> cleanStreamChunk (js ''<span>mid</span>'') False = js ''<span>mid</span>''
   \<and> list_all is_space [32, 10]
   \<and> cleanStreamChunk (js ''</div>'' @ FENCE @ [32, 10]) False = js ''</div>''
   \<and> dropWhile is_space (js ''</div>'') = 60 # js ''/div>''
   \<and> cleanStreamChunk (js ''</div>'' @ FENCE @ [32, 10]) True = js ''</div>''
   \<and> is_html_ci (js ''HtmL'') \<and> \<not> prefix FENCE (dropWhile is_space (js ''<p>``` ''))
   \<and> cleanStreamChunk ([32, 10] @ FENCE @ js ''HtmL'' @ js ''<p>``` '') True = js ''<p>''
   \<and> \<not> is_html_ci (take 4 (js ''<p>``` ''))
   \<and> cleanStreamChunk ([32, 10] @ FENCE @ js ''<p>``` '') True = js ''<p>''
   \<and> \<not> prefix [96] (dropWhile is_space (js ''<span>mid</span>''))
   \<and> cleanStreamChunk (js ''<span>mid</span>'') True = js ''<span>mid</span>''"
proof -
  have h1: "\<not> sublist FENCE (js ''<span>mid</span>'')"
    by (simp add: FENCE_def js_def sublist_Cons_right)
  have h2: "list_all is_space [32, 10]" by (simp add: is_space_def)
  have h3: "dropWhile is_space (js ''</div>'') = 60 # js ''/div>''"
    by (simp add: js_def is_space_def)
  have h4: "is_html_ci (js ''HtmL'')" by (simp add: is_html_ci_def js_def)
  have h5: "dropWhile is_space (js ''<p>``` '') = js ''<p>``` ''"
    by (simp add: js_def is_space_def)
  have h6: "\<not> prefix FENCE (js ''<p>``` '')" by (simp add: js_def FENCE_def)
  have h7: "\<not> is_html_ci (take 4 (js ''<p>``` ''))" by (simp add: is_html_ci_def js_def)
  have h8: "\<not> prefix [96] (dropWhile is_space (js ''<span>mid</span>''))"
    by (simp add: js_def is_space_def)
  have e: "cleanStreamChunk (js ''<p>``` '') False = js ''<p>''"
    by (simp add: cleanStreamChunk_def js_def FENCE_def is_space_def)
  note t = cleanStreamChunk_fences [of "js ''<span>mid</span>''" "[32, 10]" "js ''</div>''"
              "js ''HtmL''" "js ''<p>``` ''"]
  from t h1 have a1: "cleanStreamChunk (js ''<span>mid</span>'') False = js ''<span>mid</span>''"
    by blast
  from t h2 have a2: "cleanStreamChunk (js ''</div>'' @ FENCE @ [32, 10]) False = js ''</div>''"
    by blast
  from t h2 h3 have a3: "cleanStreamChunk (js ''</div>'' @ FENCE @ [32, 10]) True = js ''</div>''"
    by simp
  from t h2 h4 h5 h6 e
  have a4: "cleanStreamChunk ([32, 10] @ FENCE @ js ''HtmL'' @ js ''<p>``` '') True = js ''<p>''"
    by simp
  from t h2 h5 h7 e
  have a5: "cleanStreamChunk ([32, 10] @ FENCE @ js ''<p>``` '') True = js ''<p>''"
    by simp
  from t h8 a1
  have a6: "cleanStreamChunk (js ''<span>mid</span>'') True = js ''<span>mid</span>''"
    by simp
  show ?thesis
    using h1 h2 h3 h4 h5 h6 h7 h8 a1 a2 a3 a4 a5 a6 by simp
qed

section \<open>JSON values and \<^verbatim>\<open>JSON.parse\<close>\<close>

text \<open>
  \<^verbatim>\<open>JSON.parse\<close> is a built-in of the language; it is modelled from the JSON grammar
  (ECMA-404) as a lexer followed by a pushdown parser. A number is kept exactly, as sign,
  decimal mantissa and decimal exponent: \<open>JNumber neg m e\<close> is \<open>\<plusminus> m \<times> 10\<^sup>e\<close>. The members of an
  object are kept in source order, duplicates included.
\<close>

datatype json =
    JNull
  | JBool bool
  | JNumber bool nat int
  | JString jsstring
  | JArray "json list"
  | JObject "(jsstring \<times> json) list"

datatype token =
    TLBrace | TRBrace | TLBrack | TRBrack | TColon | TComma
  | TString jsstring | TNumber bool nat int | TTrue | TFalse | TNull

definition is_json_ws :: "nat \<Rightarrow> bool" where
  "is_json_ws c \<longleftrightarrow> c = 9 \<or> c = 10 \<or> c = 13 \<or> c = 32"

definition is_digit :: "nat \<Rightarrow> bool" where
  "is_digit c \<longleftrightarrow> 48 \<le> c \<and> c \<le> 57"

definition hex_val :: "nat \<Rightarrow> nat option" where
  "hex_val c =
     (if 48 \<le> c \<and> c \<le> 57 then Some (c - 48)
      else if 97 \<le> c \<and> c \<le> 102 then Some (c - 87)
      else if 65 \<le> c \<and> c \<le> 70 then Some (c - 55)
      else None)"

definition unescape :: "nat \<Rightarrow> nat option" where
  "unescape e =
     (if e = 34 then Some 34
      else if e = 92 then Some 92
      else if e = 47 then Some 47
      else if e = 98 then Some 8
      else if e = 102 then Some 12
      else if e = 110 then Some 10
      else if e = 114 then Some 13
      else if e = 116 then Some 9
      else None)"

text \<open>What follows a backslash inside a string: the character denoted and the rest.\<close>

definition lex_escape :: "jsstring \<Rightarrow> (nat \<times> jsstring) option" where
  "lex_escape s =
     (case s of
        [] \<Rightarrow> None
      | e # es \<Rightarrow>
          if e = 117 then
            (case es of
               h1 # h2 # h3 # h4 # rest \<Rightarrow>
                 (case (hex_val h1, hex_val h2, hex_val h3, hex_val h4) of
                    (Some a, Some b, Some c, Some d) \<Rightarrow>
                      Some (((a * 16 + b) * 16 + c) * 16 + d, rest)
                  | _ \<Rightarrow> None)
             | _ \<Rightarrow> None)
          else (case unescape e of None \<Rightarrow> None | Some d \<Rightarrow> Some (d, es)))"

lemma lex_escape_shorter:
  "lex_escape s = Some (d, rest) \<Longrightarrow> length rest < length s"
  by (auto simp: lex_escape_def split: list.splits option.splits if_splits)

text \<open>
  The characters of a string after its opening quote, up to the closing quote: the string
  denoted (escapes resolved) and the rest of the input.
\<close>

function lex_string :: "jsstring \<Rightarrow> jsstring \<Rightarrow> (jsstring \<times> jsstring) option" where
  "lex_string [] acc = None"
| "lex_string (c # cs) acc =
     (if c = 34 then Some (acc, cs)
      else if c = 92 then
        (case lex_escape cs of
           None \<Rightarrow> None
         | Some (d, rest) \<Rightarrow> lex_string rest (acc @ [d]))
      else if c < 32 then None
      else lex_string cs (acc @ [c]))"
  by pat_completeness auto
termination
  by (relation "measure (\<lambda>(s, acc). length s)")
     (auto dest: lex_escape_shorter)

definition digits_val :: "jsstring \<Rightarrow> nat" where
  "digits_val ds = foldl (\<lambda>a d. a * 10 + (d - 48)) 0 ds"

definition lex_sign :: "jsstring \<Rightarrow> bool \<times> jsstring" where
  "lex_sign s = (case s of c # r \<Rightarrow> if c = 45 then (True, r) else (False, s) | [] \<Rightarrow> (False, s))"

definition lex_int :: "jsstring \<Rightarrow> (jsstring \<times> jsstring) option" where
  "lex_int s =
     (case s of
        [] \<Rightarrow> None
      | d # r \<Rightarrow>
          if d = 48 then Some ([d], r)
          else if is_digit d then Some (takeWhile is_digit s, dropWhile is_digit s)
          else None)"

definition lex_frac :: "jsstring \<Rightarrow> (jsstring \<times> jsstring) option" where
  "lex_frac s =
     (case s of
        [] \<Rightarrow> Some ([], s)
      | c # r \<Rightarrow>
          if c = 46
          then (if takeWhile is_digit r = [] then None
                else Some (takeWhile is_digit r, dropWhile is_digit r))
          else Some ([], s))"

definition lex_exp :: "jsstring \<Rightarrow> (int \<times> jsstring) option" where
  "lex_exp s =
     (case s of
        [] \<Rightarrow> Some (0, s)
      | c # r \<Rightarrow>
          if c = 101 \<or> c = 69
          then (let (neg, r') = (case r of
                                   [] \<Rightarrow> (False, r)
                                 | g # t \<Rightarrow> if g = 43 then (False, t)
                                            else if g = 45 then (True, t) else (False, r))
                in if takeWhile is_digit r' = [] then None
                   else Some ((if neg then - int (digits_val (takeWhile is_digit r'))
                               else int (digits_val (takeWhile is_digit r'))),
                              dropWhile is_digit r'))
          else Some (0, s))"

definition lex_number :: "jsstring \<Rightarrow> (token \<times> jsstring) option" where
  "lex_number s =
     (let (neg, s1) = lex_sign s in
      case lex_int s1 of
        None \<Rightarrow> None
      | Some (ints, s2) \<Rightarrow>
          (case lex_frac s2 of
             None \<Rightarrow> None
           | Some (fracs, s3) \<Rightarrow>
               (case lex_exp s3 of
                  None \<Rightarrow> None
                | Some (e, s4) \<Rightarrow>
                    Some (TNumber neg (digits_val (ints @ fracs)) (e - int (length fracs)), s4))))"

lemma lex_string_shorter:
  "lex_string s acc = Some (str, rest) \<Longrightarrow> length rest < length s"
proof (induction s acc rule: lex_string.induct)
  case (1 acc)
  then show ?case by simp
next
  case (2 c cs acc)
  show ?case
  proof (cases "c = 34")
    case True
    with "2.prems" show ?thesis by simp
  next
    case n34: False
    show ?thesis
    proof (cases "c = 92")
      case True
      with "2.prems" n34 obtain d r where
        e: "lex_escape cs = Some (d, r)" and r: "lex_string r (acc @ [d]) = Some (str, rest)"
        by (auto split: option.splits)
      from "2.IH"(1) [OF n34 True e refl r] have "length rest < length r" .
      with lex_escape_shorter [OF e] show ?thesis by simp
    next
      case n92: False
      with "2.prems" n34 have c32: "\<not> c < 32" and r: "lex_string cs (acc @ [c]) = Some (str, rest)"
        by (auto split: if_splits)
      from "2.IH"(2) [OF n34 n92 c32 r] show ?thesis by simp
    qed
  qed
qed

lemma lex_number_shorter:
  "lex_number s = Some (t, rest) \<Longrightarrow> length rest < length s"
proof -
  assume a: "lex_number s = Some (t, rest)"
  obtain neg s1 where s1: "lex_sign s = (neg, s1)" by (cases "lex_sign s")
  then have l1: "length s1 \<le> length s"
    by (auto simp: lex_sign_def split: list.splits if_splits)
  from a s1 obtain ints s2 where i: "lex_int s1 = Some (ints, s2)"
    by (auto simp: lex_number_def split: option.splits)
  then have l2: "length s2 < length s1"
    by (auto simp: lex_int_def length_dropWhile_le le_imp_less_Suc split: list.splits if_splits)
  from a s1 i obtain fracs s3 where f: "lex_frac s2 = Some (fracs, s3)"
    by (auto simp: lex_number_def split: option.splits)
  then have l3: "length s3 \<le> length s2"
    by (auto simp: lex_frac_def length_dropWhile_le le_SucI split: list.splits if_splits)
  from a s1 i f obtain e where x: "lex_exp s3 = Some (e, rest)"
    by (auto simp: lex_number_def split: option.splits)
  then have l4: "length rest \<le> length s3"
    by (auto simp: lex_exp_def length_dropWhile_le le_SucI Let_def
             split: list.splits if_splits prod.splits)
  from l1 l2 l3 l4 show ?thesis by linarith
qed

text \<open>The sequence of tokens of a JSON text; \<open>None\<close> when a character fits no token.\<close>

function tokenize :: "jsstring \<Rightarrow> token list option" where
  "tokenize [] = Some []"
| "tokenize (c # cs) =
     (if is_json_ws c then tokenize cs
      else if c = 123 then map_option ((#) TLBrace) (tokenize cs)
      else if c = 125 then map_option ((#) TRBrace) (tokenize cs)
      else if c = 91 then map_option ((#) TLBrack) (tokenize cs)
      else if c = 93 then map_option ((#) TRBrack) (tokenize cs)
      else if c = 58 then map_option ((#) TColon) (tokenize cs)
      else if c = 44 then map_option ((#) TComma) (tokenize cs)
      else if c = 34 then
        (case lex_string cs [] of
           None \<Rightarrow> None
         | Some (str, rest) \<Rightarrow> map_option ((#) (TString str)) (tokenize rest))
      else if c = 45 \<or> is_digit c then
        (case lex_number (c # cs) of
           None \<Rightarrow> None
         | Some (t, rest) \<Rightarrow> map_option ((#) t) (tokenize rest))
      else if prefix (js ''true'') (c # cs) then map_option ((#) TTrue) (tokenize (drop 3 cs))
      else if prefix (js ''false'') (c # cs) then map_option ((#) TFalse) (tokenize (drop 4 cs))
      else if prefix (js ''null'') (c # cs) then map_option ((#) TNull) (tokenize (drop 3 cs))
      else None)"
  by pat_completeness auto
termination
  by (relation "measure length")
     (auto dest: lex_string_shorter lex_number_shorter simp: less_Suc_eq_le)

text \<open>
  The parser is a pushdown automaton over the tokens. A frame of the stack is an array or an
  object under construction; an object frame may hold the key whose value is awaited.
\<close>

datatype frame =
    InArray "json list"
  | InObject "(jsstring \<times> json) list"
  | InMember "(jsstring \<times> json) list" jsstring

datatype expect =
    NeedValue
  | NeedValueOrClose
  | NeedKeyOrClose
  | NeedKey
  | NeedColon
  | NeedCommaOrClose
  | Complete json

text \<open>A value has been completed below the given stack.\<close>

fun deliver :: "json \<Rightarrow> frame list \<Rightarrow> (expect \<times> frame list) option" where
  "deliver v [] = Some (Complete v, [])"
| "deliver v (InArray xs # st) = Some (NeedCommaOrClose, InArray (xs @ [v]) # st)"
| "deliver v (InMember ms k # st) = Some (NeedCommaOrClose, InObject (ms @ [(k, v)]) # st)"
| "deliver v (InObject ms # st) = None"

fun begin_value :: "token \<Rightarrow> frame list \<Rightarrow> (expect \<times> frame list) option" where
  "begin_value TLBrack st = Some (NeedValueOrClose, InArray [] # st)"
| "begin_value TLBrace st = Some (NeedKeyOrClose, InObject [] # st)"
| "begin_value (TString s) st = deliver (JString s) st"
| "begin_value (TNumber neg m e) st = deliver (JNumber neg m e) st"
| "begin_value TTrue st = deliver (JBool True) st"
| "begin_value TFalse st = deliver (JBool False) st"
| "begin_value TNull st = deliver JNull st"
| "begin_value _ st = None"

fun close_array :: "frame list \<Rightarrow> (expect \<times> frame list) option" where
  "close_array (InArray xs # st) = deliver (JArray xs) st"
| "close_array _ = None"

fun close_object :: "frame list \<Rightarrow> (expect \<times> frame list) option" where
  "close_object (InObject ms # st) = deliver (JObject ms) st"
| "close_object _ = None"

fun begin_member :: "jsstring \<Rightarrow> frame list \<Rightarrow> (expect \<times> frame list) option" where
  "begin_member k (InObject ms # st) = Some (NeedColon, InMember ms k # st)"
| "begin_member k _ = None"

fun after_comma :: "frame list \<Rightarrow> (expect \<times> frame list) option" where
  "after_comma (InArray xs # st) = Some (NeedValue, InArray xs # st)"
| "after_comma (InObject ms # st) = Some (NeedKey, InObject ms # st)"
| "after_comma _ = None"

fun parse_step :: "expect \<times> frame list \<Rightarrow> token \<Rightarrow> (expect \<times> frame list) option" where
  "parse_step (NeedValue, st) t = begin_value t st"
| "parse_step (NeedValueOrClose, st) t = (if t = TRBrack then close_array st else begin_value t st)"
| "parse_step (NeedKeyOrClose, st) t =
     (case t of TString k \<Rightarrow> begin_member k st | TRBrace \<Rightarrow> close_object st | _ \<Rightarrow> None)"
| "parse_step (NeedKey, st) t = (case t of TString k \<Rightarrow> begin_member k st | _ \<Rightarrow> None)"
| "parse_step (NeedColon, st) t = (if t = TColon then Some (NeedValue, st) else None)"
| "parse_step (NeedCommaOrClose, st) t =
     (case t of
        TComma \<Rightarrow> after_comma st
      | TRBrack \<Rightarrow> close_array st
      | TRBrace \<Rightarrow> close_object st
      | _ \<Rightarrow> None)"
| "parse_step (Complete v, st) t = None"

fun parse_tokens :: "expect \<times> frame list \<Rightarrow> token list \<Rightarrow> json option" where
  "parse_tokens (Complete v, []) [] = Some v"
| "parse_tokens s [] = None"
| "parse_tokens s (t # ts) =
     (case parse_step s t of None \<Rightarrow> None | Some s' \<Rightarrow> parse_tokens s' ts)"

text \<open>\<^verbatim>\<open>JSON.parse(text)\<close>: the value, or \<open>None\<close> where a \<^verbatim>\<open>SyntaxError\<close> is thrown.\<close>

definition json_parse :: "jsstring \<Rightarrow> json option" where
  "json_parse text =
     (case tokenize text of None \<Rightarrow> None | Some ts \<Rightarrow> parse_tokens (NeedValue, []) ts)"

section \<open>\<^verbatim>\<open>parseJsonResponse\<close>\<close>

text \<open>
  \<^verbatim>\<open>s.replace(/PAT/g, '')\<close> for a literal, non-empty pattern: scanning from the left, every
  match is dropped and the scan goes on behind it.
\<close>

function remove_all :: "jsstring \<Rightarrow> jsstring \<Rightarrow> jsstring" where
  "remove_all pat [] = []"
| "remove_all pat (c # cs) =
     (if pat \<noteq> [] \<and> prefix pat (c # cs)
      then remove_all pat (drop (length pat) (c # cs))
      else c # remove_all pat cs)"
  by pat_completeness auto
termination
  by (relation "measure (\<lambda>(pat, s). length s)") auto

text \<open>\<^verbatim>\<open>s.trim()\<close>.\<close>

definition trim :: "jsstring \<Rightarrow> jsstring" where
  "trim s = rev (dropWhile is_space (rev (dropWhile is_space s)))"

text \<open>The prefix of \<open>cs\<close> that ends with the last occurrence of \<open>close\<close>.\<close>

definition up_to_last :: "nat \<Rightarrow> jsstring \<Rightarrow> jsstring" where
  "up_to_last close cs = rev (dropWhile (\<lambda>x. x \<noteq> close) (rev cs))"

text \<open>
  \<^verbatim>\<open>text.match(/(\{[\s\S]*\}|\[[\s\S]*\])/)\<close>: the match at the leftmost position where one
  of the alternatives matches, the first alternative tried first. An alternative matches at
  an opening bracket that has its closing bracket somewhere behind it and, the star being
  greedy, runs to the last such closing bracket of the text.
\<close>

fun first_structure :: "jsstring \<Rightarrow> jsstring option" where
  "first_structure [] = None"
| "first_structure (c # cs) =
     (if c = 123 \<and> 125 \<in> set cs then Some (c # up_to_last 125 cs)
      else if c = 91 \<and> 93 \<in> set cs then Some (c # up_to_last 93 cs)
      else first_structure cs)"

text \<open>
  The two errors thrown by \<^verbatim>\<open>parseJsonResponse\<close>: \<open>ExtractedInvalid m\<close> is
  \<^verbatim>\<open>Failed to parse JSON. Extracted structure invalid: ...\<close>, thrown when the extracted text
  \<open>m\<close> does not parse (the message goes on with the engine's description of that failure);
  \<open>NoStructure p\<close> is \<^verbatim>\<open>Failed to parse JSON response. Raw text: "p..."\<close>, with \<open>p\<close> the
  value of \<^verbatim>\<open>text.substring(0, 100)\<close>.
\<close>

datatype parse_failure = ExtractedInvalid jsstring | NoStructure jsstring

definition parseJsonResponse :: "jsstring \<Rightarrow> parse_failure + json" where
  "parseJsonResponse text =
     (let cleaned = trim (remove_all FENCE (remove_all (FENCE @ js ''json'') text))
      in case json_parse cleaned of
           Some v \<Rightarrow> Inr v
         | None \<Rightarrow>
             (case first_structure text of
                Some m \<Rightarrow>
                  (case json_parse m of
                     Some v \<Rightarrow> Inr v
                   | None \<Rightarrow> Inl (ExtractedInvalid m))
              | None \<Rightarrow> Inl (NoStructure (take 100 text))))"


subsection \<open>Properties of the response parser\<close>

definition json_start :: "nat \<Rightarrow> bool" where
  "json_start c \<longleftrightarrow>
     is_json_ws c \<or> c \<in> {123, 125, 91, 93, 58, 44, 34, 45, 116, 102, 110} \<or> is_digit c"

lemma tokenize_first:
  "tokenize (c # cs) = Some ts \<Longrightarrow> json_start c"
proof (rule ccontr)
  assume t: "tokenize (c # cs) = Some ts" and n: "\<not> json_start c"
  from n have "\<not> prefix (js ''true'') (c # cs)" "\<not> prefix (js ''false'') (c # cs)"
    "\<not> prefix (js ''null'') (c # cs)"
    by (auto simp: json_start_def js_def)
  with n have "tokenize (c # cs) = None"
    by (simp add: json_start_def)
  with t show False by simp
qed

lemma json_parse_nonempty:
  "json_parse j = Some v \<Longrightarrow> \<exists>c cs. j = c # cs \<and> json_start c"
proof (cases j)
  case Nil
  assume "json_parse j = Some v"
  with Nil show ?thesis by (simp add: json_parse_def)
next
  case (Cons c cs)
  assume "json_parse j = Some v"
  with Cons obtain ts where "tokenize (c # cs) = Some ts"
    by (auto simp: json_parse_def split: option.splits)
  then have "json_start c" by (rule tokenize_first)
  with Cons show ?thesis by simp
qed

lemma json_parse_bad_start:
  "\<not> json_start c \<Longrightarrow> json_parse (c # y) = None"
proof (cases "json_parse (c # y)")
  case None
  then show ?thesis by simp
next
  case (Some v)
  assume "\<not> json_start c"
  with json_parse_nonempty [OF Some] show ?thesis by simp
qed

lemma json_start_not_backtick: "json_start c \<Longrightarrow> c \<noteq> 96 \<and> c \<noteq> 106"
  by (auto simp: json_start_def is_json_ws_def is_digit_def)

lemma is_space_not_backtick: "is_space c \<Longrightarrow> c \<noteq> 96 \<and> c \<noteq> 106"
  by (auto simp: is_space_def)

definition FENCE_JSON :: jsstring where
  "FENCE_JSON = FENCE @ js ''json''"

lemma FENCE_JSON_eq: "FENCE_JSON = [96, 96, 96, 106, 115, 111, 110]"
  by (simp add: FENCE_JSON_def FENCE_def js_def)

lemma remove_all_skip:
  "pat = p # ps \<Longrightarrow> c \<noteq> p \<Longrightarrow> remove_all pat (c # cs) = c # remove_all pat cs"
  by simp

text \<open>
  A text accepted by \<open>json_parse\<close> never ends with a backtick: the lexer consumes the text
  token by token, and every token ends with a character other than a backtick.
\<close>

lemma lex_escape_split:
  "lex_escape s = Some (d, rest) \<Longrightarrow> \<exists>pre. s = pre @ rest"
  by (auto simp: lex_escape_def split: list.splits option.splits if_splits)

lemma lex_string_split:
  "lex_string s acc = Some (str, rest) \<Longrightarrow> \<exists>pre. s = pre @ 34 # rest"
proof (induction s acc rule: lex_string.induct)
  case (1 acc)
  then show ?case by simp
next
  case (2 c cs acc)
  show ?case
  proof (cases "c = 34")
    case True
    with "2.prems" have "c # cs = [] @ 34 # rest" by simp
    then show ?thesis by blast
  next
    case n34: False
    show ?thesis
    proof (cases "c = 92")
      case True
      with "2.prems" n34 obtain d r where
        e: "lex_escape cs = Some (d, r)" and r: "lex_string r (acc @ [d]) = Some (str, rest)"
        by (auto split: option.splits)
      from "2.IH"(1) [OF n34 True e refl r] obtain p1 where p1: "r = p1 @ 34 # rest" by blast
      from lex_escape_split [OF e] obtain p2 where p2: "cs = p2 @ r" by blast
      from p1 p2 have "c # cs = (c # p2 @ p1) @ 34 # rest" by simp
      then show ?thesis by blast
    next
      case n92: False
      with "2.prems" n34 have c32: "\<not> c < 32" and r: "lex_string cs (acc @ [c]) = Some (str, rest)"
        by (auto split: if_splits)
      from "2.IH"(2) [OF n34 n92 c32 r] obtain p where "cs = p @ 34 # rest" by blast
      then have "c # cs = (c # p) @ 34 # rest" by simp
      then show ?thesis by blast
    qed
  qed
qed

definition ends_digit :: "jsstring \<Rightarrow> jsstring \<Rightarrow> bool" where
  "ends_digit s rest \<longleftrightarrow> (\<exists>pre d. s = pre @ d # rest \<and> is_digit d)"

lemma digits_end:
  assumes "takeWhile is_digit s \<noteq> []"
  shows "ends_digit s (dropWhile is_digit s)"
proof -
  let ?t = "takeWhile is_digit s"
  have "last ?t \<in> set ?t" using assms by simp
  then have d: "is_digit (last ?t)" by (rule set_takeWhileD [THEN conjunct2])
  have "s = ?t @ dropWhile is_digit s" by simp
  also have "?t = butlast ?t @ [last ?t]" using assms by simp
  finally have "s = butlast ?t @ last ?t # dropWhile is_digit s" by simp
  with d show ?thesis unfolding ends_digit_def by blast
qed

lemma ends_digit_trans:
  "ends_digit s s1 \<Longrightarrow> ends_digit s1 s2 \<Longrightarrow> ends_digit s s2"
proof -
  assume "ends_digit s s1" "ends_digit s1 s2"
  then obtain p d q e where "s = p @ d # s1" "s1 = q @ e # s2" "is_digit e"
    unfolding ends_digit_def by blast
  then have "s = (p @ d # q) @ e # s2 \<and> is_digit e" by simp
  then show ?thesis unfolding ends_digit_def by blast
qed

lemma ends_digit_prepend: "ends_digit s rest \<Longrightarrow> ends_digit (a @ s) rest"
proof -
  assume "ends_digit s rest"
  then obtain p d where "s = p @ d # rest" "is_digit d" unfolding ends_digit_def by blast
  then have "a @ s = (a @ p) @ d # rest \<and> is_digit d" by simp
  then show ?thesis unfolding ends_digit_def by blast
qed

lemma lex_int_end: "lex_int s = Some (ints, rest) \<Longrightarrow> ends_digit s rest"
proof -
  assume a: "lex_int s = Some (ints, rest)"
  then obtain d r where s: "s = d # r" by (cases s) (auto simp: lex_int_def)
  show ?thesis
  proof (cases "d = 48")
    case True
    with a s have "rest = r" by (simp add: lex_int_def)
    with s True have "s = [] @ d # rest \<and> is_digit d" by (simp add: is_digit_def)
    then show ?thesis unfolding ends_digit_def by blast
  next
    case False
    with a s have dg: "is_digit d" and r: "rest = dropWhile is_digit s"
      by (auto simp: lex_int_def split: if_splits)
    from dg s have "takeWhile is_digit s \<noteq> []" by simp
    from digits_end [OF this] r show ?thesis by simp
  qed
qed

lemma lex_frac_end: "lex_frac s = Some (fracs, rest) \<Longrightarrow> rest = s \<or> ends_digit s rest"
proof -
  assume a: "lex_frac s = Some (fracs, rest)"
  show ?thesis
  proof (cases s)
    case Nil
    with a show ?thesis by (simp add: lex_frac_def)
  next
    case (Cons c r)
    show ?thesis
    proof (cases "c = 46")
      case True
      with a Cons have t: "takeWhile is_digit r \<noteq> []" and e: "rest = dropWhile is_digit r"
        by (auto simp: lex_frac_def split: if_splits)
      from digits_end [OF t] e have "ends_digit r rest" by simp
      then have "ends_digit ([c] @ r) rest" by (rule ends_digit_prepend)
      with Cons show ?thesis by simp
    next
      case False
      with a Cons show ?thesis by (simp add: lex_frac_def)
    qed
  qed
qed

lemma lex_exp_end: "lex_exp s = Some (e, rest) \<Longrightarrow> rest = s \<or> ends_digit s rest"
proof -
  assume a: "lex_exp s = Some (e, rest)"
  show ?thesis
  proof (cases s)
    case Nil
    with a show ?thesis by (simp add: lex_exp_def)
  next
    case (Cons c r)
    show ?thesis
    proof (cases "c = 101 \<or> c = 69")
      case False
      with a Cons show ?thesis by (simp add: lex_exp_def)
    next
      case True
      define r' where "r' = (case r of [] \<Rightarrow> r | g # t \<Rightarrow> if g = 43 \<or> g = 45 then t else r)"
      have pre: "\<exists>p. r = p @ r'"
        by (cases r) (auto simp: r'_def)
      from a Cons True have t: "takeWhile is_digit r' \<noteq> []" and e: "rest = dropWhile is_digit r'"
        by (auto simp: lex_exp_def r'_def Let_def split: if_splits list.splits)
      from digits_end [OF t] e have "ends_digit r' rest" by simp
      moreover from pre obtain p where "c # r = (c # p) @ r'" by auto
      ultimately have "ends_digit (c # r) rest" using ends_digit_prepend by metis
      with Cons show ?thesis by simp
    qed
  qed
qed

lemma lex_number_end: "lex_number s = Some (t, rest) \<Longrightarrow> ends_digit s rest"
proof -
  assume a: "lex_number s = Some (t, rest)"
  obtain neg s1 where s1: "lex_sign s = (neg, s1)" by (cases "lex_sign s")
  then have p1: "\<exists>p. s = p @ s1"
    by (auto simp: lex_sign_def split: list.splits if_splits)
  from a s1 obtain ints s2 where i: "lex_int s1 = Some (ints, s2)"
    by (auto simp: lex_number_def split: option.splits)
  from a s1 i obtain fracs s3 where f: "lex_frac s2 = Some (fracs, s3)"
    by (auto simp: lex_number_def split: option.splits)
  from a s1 i f obtain e where x: "lex_exp s3 = Some (e, rest)"
    by (auto simp: lex_number_def split: option.splits)
  have e1: "ends_digit s1 s2" using i by (rule lex_int_end)
  have e2: "ends_digit s1 s3" using lex_frac_end [OF f] e1 ends_digit_trans by blast
  have e3: "ends_digit s1 rest" using lex_exp_end [OF x] e2 ends_digit_trans by blast
  from p1 obtain p where "s = p @ s1" by blast
  with e3 show ?thesis using ends_digit_prepend by simp
qed

text \<open>A text that has tokens is a first token, which does not end with a backtick, and a rest
  that has tokens.\<close>

lemma tokenize_consumes:
  assumes "tokenize (c # cs) = Some ts"
  shows "\<exists>pre x rest ts'. c # cs = pre @ x # rest \<and> x \<noteq> 96 \<and> tokenize rest = Some ts'"
proof -
  consider (ws) "is_json_ws c"
    | (punct) "\<not> is_json_ws c" "c \<in> {123, 125, 91, 93, 58, 44}"
    | (str) "\<not> is_json_ws c" "c \<notin> {123, 125, 91, 93, 58, 44}" "c = 34"
    | (num) "\<not> is_json_ws c" "c \<notin> {123, 125, 91, 93, 58, 44}" "c \<noteq> 34" "c = 45 \<or> is_digit c"
    | (word) "\<not> is_json_ws c" "c \<notin> {123, 125, 91, 93, 58, 44}" "c \<noteq> 34" "\<not> (c = 45 \<or> is_digit c)"
    by blast
  then show ?thesis
  proof cases
    case ws
    with assms have "tokenize cs = Some ts" by simp
    moreover have "c \<noteq> 96" using ws by (auto simp: is_json_ws_def)
    moreover have "c # cs = [] @ c # cs" by simp
    ultimately show ?thesis by blast
  next
    case punct
    with assms obtain ts' where "tokenize cs = Some ts'" by (auto split: if_splits)
    moreover have "c \<noteq> 96" using punct by auto
    moreover have "c # cs = [] @ c # cs" by simp
    ultimately show ?thesis by blast
  next
    case str
    with assms obtain s rest ts' where l: "lex_string cs [] = Some (s, rest)"
      and t: "tokenize rest = Some ts'"
      by (auto split: option.splits)
    from lex_string_split [OF l] obtain p where "cs = p @ 34 # rest" by blast
    then have "c # cs = (c # p) @ 34 # rest" by simp
    moreover have "(34::nat) \<noteq> 96" by simp
    ultimately show ?thesis using t by blast
  next
    case num
    with assms obtain tk rest ts' where l: "lex_number (c # cs) = Some (tk, rest)"
      and t: "tokenize rest = Some ts'"
      by (auto split: option.splits if_splits)
    from lex_number_end [OF l] obtain p d where "c # cs = p @ d # rest" "is_digit d"
      unfolding ends_digit_def by blast
    moreover from this have "d \<noteq> 96" by (auto simp: is_digit_def)
    ultimately show ?thesis using t by blast
  next
    case word
    then have n: "\<not> is_json_ws c" "c \<noteq> 123" "c \<noteq> 125" "c \<noteq> 91" "c \<noteq> 93" "c \<noteq> 58" "c \<noteq> 44"
      "c \<noteq> 34" "c \<noteq> 45" "\<not> is_digit c" by auto
    consider (t) "prefix (js ''true'') (c # cs)"
      | (f) "\<not> prefix (js ''true'') (c # cs)" "prefix (js ''false'') (c # cs)"
      | (n) "\<not> prefix (js ''true'') (c # cs)" "\<not> prefix (js ''false'') (c # cs)"
            "prefix (js ''null'') (c # cs)"
      | (none) "\<not> prefix (js ''true'') (c # cs)" "\<not> prefix (js ''false'') (c # cs)"
            "\<not> prefix (js ''null'') (c # cs)"
      by blast
    then show ?thesis
    proof cases
      case t
      with assms n obtain ts' where r: "tokenize (drop 3 cs) = Some ts'" by auto
      from t obtain z where "c # cs = js ''true'' @ z" by (auto simp: prefix_def)
      then have "c # cs = js ''tru'' @ 101 # drop 3 cs" by (auto simp: js_def)
      moreover have "(101::nat) \<noteq> 96" by simp
      ultimately show ?thesis using r by blast
    next
      case f
      with assms n obtain ts' where r: "tokenize (drop 4 cs) = Some ts'" by auto
      from f obtain z where "c # cs = js ''false'' @ z" by (auto simp: prefix_def)
      then have "c # cs = js ''fals'' @ 101 # drop 4 cs" by (auto simp: js_def)
      moreover have "(101::nat) \<noteq> 96" by simp
      ultimately show ?thesis using r by blast
    next
      case n
      note k = n
      with assms \<open>\<not> is_json_ws c\<close> \<open>c \<noteq> 123\<close> \<open>c \<noteq> 125\<close> \<open>c \<noteq> 91\<close> \<open>c \<noteq> 93\<close> \<open>c \<noteq> 58\<close>
        \<open>c \<noteq> 44\<close> \<open>c \<noteq> 34\<close> \<open>c \<noteq> 45\<close> \<open>\<not> is_digit c\<close>
      obtain ts' where r: "tokenize (drop 3 cs) = Some ts'" by auto
      from k obtain z where "c # cs = js ''null'' @ z" by (auto simp: prefix_def)
      then have "c # cs = js ''nul'' @ 108 # drop 3 cs" by (auto simp: js_def)
      moreover have "(108::nat) \<noteq> 96" by simp
      ultimately show ?thesis using r by blast
    next
      case none
      with assms n show ?thesis by simp
    qed
  qed
qed

lemma tokenize_last:
  "tokenize s = Some ts \<Longrightarrow> s \<noteq> [] \<Longrightarrow> last s \<noteq> 96"
proof (induction "length s" arbitrary: s ts rule: less_induct)
  case less
  from less.prems(2) obtain c cs where s: "s = c # cs" by (cases s) auto
  from tokenize_consumes [of c cs ts] less.prems(1) s obtain pre x rest ts' where
    d: "s = pre @ x # rest" "x \<noteq> 96" "tokenize rest = Some ts'"
    by auto
  show ?case
  proof (cases "rest = []")
    case True
    with d show ?thesis by simp
  next
    case False
    have "length rest < length s" using d(1) by simp
    from less.hyps [OF this d(3) False] have "last rest \<noteq> 96" .
    with d(1) False show ?thesis by simp
  qed
qed

lemma json_parse_last: "json_parse j = Some v \<Longrightarrow> last j \<noteq> 96"
proof -
  assume a: "json_parse j = Some v"
  then obtain ts where t: "tokenize j = Some ts"
    by (auto simp: json_parse_def split: option.splits)
  from json_parse_nonempty [OF a] have "j \<noteq> []" by auto
  with t show ?thesis by (rule tokenize_last)
qed

lemma set_FENCE: "set FENCE = {96}"
  by (simp add: FENCE_def)

lemma rev_FENCE: "rev FENCE = FENCE"
  by (simp add: FENCE_def)

lemma no_backtick_no_fence: "96 \<notin> set A \<Longrightarrow> \<not> sublist FENCE A"
proof
  assume a: "96 \<notin> set A" and s: "sublist FENCE A"
  from s have "set FENCE \<subseteq> set A" by (rule set_mono_sublist)
  with a show False by (simp add: set_FENCE)
qed

lemma sublist_fence_strip_left:
  "96 \<notin> set w \<Longrightarrow> sublist FENCE (w @ X) \<Longrightarrow> sublist FENCE X"
proof (induction w)
  case Nil
  then show ?case by simp
next
  case (Cons x w)
  from Cons.prems(1) have x: "x \<noteq> 96" and w: "96 \<notin> set w" by auto
  from x have np: "\<not> prefix FENCE (x # (w @ X))" by (simp add: FENCE_def)
  from Cons.prems(2) have "sublist FENCE (x # (w @ X))" by simp
  then have "prefix FENCE (x # (w @ X)) \<or> sublist FENCE (w @ X)"
    by (simp only: sublist_Cons_right)
  with np have "sublist FENCE (w @ X)" by simp
  with w show ?case by (rule Cons.IH)
qed

lemma sublist_fence_strip_right:
  assumes "96 \<notin> set w" "sublist FENCE (X @ w)"
  shows "sublist FENCE X"
proof -
  from assms(2) have "sublist (rev FENCE) (rev (X @ w))" by (simp only: sublist_rev)
  then have "sublist FENCE (rev w @ rev X)" by (simp add: rev_FENCE)
  moreover have "96 \<notin> set (rev w)" using assms(1) by simp
  ultimately have "sublist FENCE (rev X)" by (rule sublist_fence_strip_left [rotated])
  then have "sublist (rev FENCE) (rev X)" by (simp add: rev_FENCE)
  then show ?thesis by (simp only: sublist_rev)
qed

lemma fence_not_at_tail:
  assumes "\<not> sublist FENCE (a # A)" "last (a # A) \<noteq> 96"
  shows "\<not> prefix FENCE ((a # A) @ FENCE)"
proof
  assume p: "prefix FENCE ((a # A) @ FENCE)"
  show False
  proof (cases A)
    case Nil
    with p assms(2) show False by (simp add: FENCE_def)
  next
    case A: (Cons b B)
    show False
    proof (cases B)
      case Nil
      with p A assms(2) show False by (simp add: FENCE_def)
    next
      case (Cons c C)
      with p A have "a # A = FENCE @ C" by (simp add: FENCE_def)
      then have "prefix FENCE (a # A)" by (rule prefixI)
      then have "sublist FENCE (a # A)" by (rule prefix_imp_sublist)
      with assms(1) show False by simp
    qed
  qed
qed

lemma prefix_FENCE_JSON: "prefix FENCE_JSON X \<Longrightarrow> prefix FENCE X"
  by (auto simp: FENCE_JSON_def prefix_def)

lemma remove_fence_tail:
  "\<not> sublist FENCE A \<Longrightarrow> (A \<noteq> [] \<longrightarrow> last A \<noteq> 96) \<Longrightarrow> remove_all FENCE (A @ FENCE) = A"
proof (induction A)
  case Nil
  show ?case by (simp add: FENCE_def)
next
  case (Cons a A)
  from Cons.prems have np: "\<not> prefix FENCE ((a # A) @ FENCE)"
    using fence_not_at_tail by simp
  from Cons.prems(1) have s: "\<not> sublist FENCE A" by (simp add: sublist_Cons_right)
  from Cons.prems(2) have l: "A \<noteq> [] \<longrightarrow> last A \<noteq> 96" by auto
  have "remove_all FENCE ((a # A) @ FENCE) = a # remove_all FENCE (A @ FENCE)"
    using np by simp
  with Cons.IH [OF s l] show ?case by simp
qed

lemma remove_fence_json_tail:
  "\<not> sublist FENCE A \<Longrightarrow> (A \<noteq> [] \<longrightarrow> last A \<noteq> 96) \<Longrightarrow>
   remove_all FENCE_JSON (A @ FENCE) = A @ FENCE"
proof (induction A)
  case Nil
  show ?case by (simp add: FENCE_def FENCE_JSON_eq)
next
  case (Cons a A)
  from Cons.prems have "\<not> prefix FENCE ((a # A) @ FENCE)"
    using fence_not_at_tail by simp
  then have np: "\<not> prefix FENCE_JSON ((a # A) @ FENCE)"
    using prefix_FENCE_JSON by blast
  from Cons.prems(1) have s: "\<not> sublist FENCE A" by (simp add: sublist_Cons_right)
  from Cons.prems(2) have l: "A \<noteq> [] \<longrightarrow> last A \<noteq> 96" by auto
  have "remove_all FENCE_JSON ((a # A) @ FENCE) = a # remove_all FENCE_JSON (A @ FENCE)"
    using np by simp
  with Cons.IH [OF s l] show ?case by simp
qed

lemma remove_fence_json_head:
  "remove_all FENCE_JSON (FENCE_JSON @ X) = remove_all FENCE_JSON X"
  by (simp add: FENCE_JSON_eq)

lemma remove_fence_json_plain_head:
  "a \<noteq> 96 \<Longrightarrow> a \<noteq> 106 \<Longrightarrow>
   remove_all FENCE_JSON (FENCE @ a # X) = FENCE @ a # remove_all FENCE_JSON X"
  by (simp add: FENCE_JSON_eq FENCE_def)

lemma remove_fence_head:
  "remove_all FENCE (FENCE @ X) = remove_all FENCE X"
  by (simp add: FENCE_def)

lemma trim_fixed:
  assumes "trim j = j" "j \<noteq> []"
  shows "\<not> is_space (hd j)" and "\<not> is_space (last j)"
proof -
  show h: "\<not> is_space (hd j)"
  proof
    assume sp: "is_space (hd j)"
    from assms(2) obtain c cs where j: "j = c # cs" by (cases j) auto
    have "length (trim j) \<le> length (dropWhile is_space j)"
      using length_dropWhile_le [of is_space "rev (dropWhile is_space j)"]
      by (simp add: trim_def)
    also have "\<dots> \<le> length cs"
      using sp j by (simp add: length_dropWhile_le)
    finally show False using assms(1) j by simp
  qed
  from assms(2) obtain c cs where j: "j = c # cs" by (cases j) auto
  with h have d: "dropWhile is_space j = j" by simp
  show "\<not> is_space (last j)"
  proof
    assume sp: "is_space (last j)"
    have r: "rev j = last j # rev (butlast j)"
      using assms(2) by (metis append_butlast_last_id rev.simps(2) rev_append rev_rev_ident rev_singleton_conv append_Cons append_Nil)
    have "dropWhile is_space (rev j) = dropWhile is_space (rev (butlast j))"
      using sp by (subst r) simp
    moreover have "length (dropWhile is_space (rev (butlast j))) \<le> length (rev (butlast j))"
      by (rule length_dropWhile_le)
    moreover have "length (rev (butlast j)) < length j"
      using assms(2) by (simp add: length_greater_0_conv [THEN iffD2])
    ultimately have "length (dropWhile is_space (rev j)) < length j"
      by (simp only: le_less_trans)
    then have "length (trim j) < length j"
      using d by (simp add: trim_def)
    with assms(1) show False by simp
  qed
qed

lemma trim_wrapped:
  assumes j: "trim j = j" "j \<noteq> []" and ws: "list_all is_space ws1" "list_all is_space ws2"
  shows "trim (ws1 @ j @ ws2) = j"
proof -
  from j obtain c cs where c: "j = c # cs" by (cases j) auto
  from trim_fixed [OF j] c have h: "\<not> is_space c" by simp
  from trim_fixed [OF j] have l: "\<not> is_space (last j)" by simp
  have "dropWhile is_space (ws1 @ j @ ws2) = dropWhile is_space (j @ ws2)"
    using ws(1) by (simp add: dropWhile_append2 list_all_iff)
  also have "\<dots> = j @ ws2" using c h by simp
  finally have d: "dropWhile is_space (ws1 @ j @ ws2) = j @ ws2" .
  have "rev (j @ ws2) = rev ws2 @ rev j" by simp
  moreover have "dropWhile is_space (rev ws2 @ rev j) = dropWhile is_space (rev j)"
    using ws(2) by (simp add: dropWhile_append list_all_iff)
  moreover have "dropWhile is_space (rev j) = rev j"
    using l j(2) by (metis dropWhile_eq_self_iff hd_rev)
  ultimately show ?thesis using d by (simp add: trim_def)
qed

lemma trim_Cons_nonspace:
  assumes "\<not> is_space c"
  shows "\<exists>y. trim (c # x) = c # y"
proof -
  have d: "dropWhile is_space (c # x) = c # x" using assms by simp
  have "\<exists>z. dropWhile is_space (rev x @ [c]) = z @ [c]"
    using assms by (simp add: dropWhile_append)
  then obtain z where "dropWhile is_space (rev (c # x)) = z @ [c]" by auto
  then have "trim (c # x) = c # rev z" using d by (simp add: trim_def)
  then show ?thesis by blast
qed

lemma first_structure_skip:
  "123 \<notin> set pre \<Longrightarrow> 91 \<notin> set pre \<Longrightarrow> first_structure (pre @ s) = first_structure s"
  by (induction pre) auto

lemma up_to_last_closed:
  "close \<notin> set post \<Longrightarrow> up_to_last close (mid @ [close] @ post) = mid @ [close]"
proof -
  assume "close \<notin> set post"
  then have "dropWhile (\<lambda>x. x \<noteq> close) (rev post @ close # rev mid) = close # rev mid"
    by (simp add: dropWhile_append)
  then show ?thesis by (simp add: up_to_last_def)
qed

lemma first_structure_object:
  "125 \<notin> set post \<Longrightarrow>
   first_structure (123 # mid @ [125] @ post) = Some (123 # mid @ [125])"
  using up_to_last_closed [of 125 post mid] by simp

lemma first_structure_array:
  "93 \<notin> set post \<Longrightarrow>
   first_structure (91 # mid @ [93] @ post) = Some (91 # mid @ [93])"
  using up_to_last_closed [of 93 post mid] by simp

lemma remove_all_no_fence:
  assumes "\<not> sublist FENCE A"
  shows "remove_all FENCE A = A" and "remove_all FENCE_JSON A = A"
proof -
  show "remove_all FENCE A = A"
    using assms
  proof (induction A)
    case Nil
    show ?case by simp
  next
    case (Cons a A)
    from Cons.prems have "\<not> prefix FENCE (a # A)" using prefix_imp_sublist by blast
    moreover from Cons.prems have "\<not> sublist FENCE A" by (simp add: sublist_Cons_right)
    ultimately show ?case using Cons.IH by simp
  qed
  show "remove_all FENCE_JSON A = A"
    using assms
  proof (induction A)
    case Nil
    show ?case by simp
  next
    case (Cons a A)
    from Cons.prems have "\<not> prefix FENCE (a # A)" using prefix_imp_sublist by blast
    then have "\<not> prefix FENCE_JSON (a # A)" using prefix_FENCE_JSON by blast
    moreover from Cons.prems have "\<not> sublist FENCE A" by (simp add: sublist_Cons_right)
    ultimately show ?case using Cons.IH by simp
  qed
qed



lemma wrapped_body:
  assumes j: "json_parse j = Some v" "\<not> sublist FENCE j"
    and ws: "list_all is_space ws1" "list_all is_space ws2"
  shows "\<not> sublist FENCE (ws1 @ j @ ws2)"
    and "last (ws1 @ j @ ws2) \<noteq> 96"
    and "\<exists>a A. ws1 @ j @ ws2 = a # A \<and> a \<noteq> 96 \<and> a \<noteq> 106"
proof -
  have w1: "96 \<notin> set ws1" and w2: "96 \<notin> set ws2"
    using ws is_space_not_backtick by (auto simp: list_all_iff)
  show "\<not> sublist FENCE (ws1 @ j @ ws2)"
  proof
    assume "sublist FENCE (ws1 @ j @ ws2)"
    with w1 have "sublist FENCE (j @ ws2)" by (rule sublist_fence_strip_left)
    with w2 have "sublist FENCE j" by (rule sublist_fence_strip_right)
    with j(2) show False by simp
  qed
  from json_parse_nonempty [OF j(1)] obtain c cs where c: "j = c # cs" "json_start c" by blast
  show "last (ws1 @ j @ ws2) \<noteq> 96"
  proof (cases "ws2 = []")
    case True
    with c json_parse_last [OF j(1)] show ?thesis by simp
  next
    case False
    then have "last ws2 \<in> set ws2" by simp
    with w2 have "last ws2 \<noteq> 96" by metis
    with False show ?thesis by simp
  qed
  show "\<exists>a A. ws1 @ j @ ws2 = a # A \<and> a \<noteq> 96 \<and> a \<noteq> 106"
  proof (cases ws1)
    case Nil
    with c json_start_not_backtick [OF c(2)] show ?thesis by simp
  next
    case (Cons w ws)
    with ws(1) have "is_space w" by simp
    with Cons is_space_not_backtick [of w] show ?thesis by simp
  qed
qed

subsection \<open>The tokens of a text, one at a time\<close>

text \<open>
  The first token of a text that does not start with white space, and the rest of the text.
  \<open>tokenize\<close> is the iteration of this function; the lemmas below are stated for it.
\<close>

definition next_token :: "jsstring \<Rightarrow> (token \<times> jsstring) option" where
  "next_token s =
     (case s of
        [] \<Rightarrow> None
      | c # cs \<Rightarrow>
          if c = 123 then Some (TLBrace, cs)
          else if c = 125 then Some (TRBrace, cs)
          else if c = 91 then Some (TLBrack, cs)
          else if c = 93 then Some (TRBrack, cs)
          else if c = 58 then Some (TColon, cs)
          else if c = 44 then Some (TComma, cs)
          else if c = 34 then
            (case lex_string cs [] of
               None \<Rightarrow> None
             | Some (str, rest) \<Rightarrow> Some (TString str, rest))
          else if c = 45 \<or> is_digit c then lex_number (c # cs)
          else if prefix (js ''true'') (c # cs) then Some (TTrue, drop 3 cs)
          else if prefix (js ''false'') (c # cs) then Some (TFalse, drop 4 cs)
          else if prefix (js ''null'') (c # cs) then Some (TNull, drop 3 cs)
          else None)"

lemma tokenize_next:
  "tokenize (c # cs) =
     (if is_json_ws c then tokenize cs
      else case next_token (c # cs) of
             None \<Rightarrow> None
           | Some (t, rest) \<Rightarrow> map_option ((#) t) (tokenize rest))"
  by (simp add: next_token_def split: option.splits)

lemma next_token_split:
  assumes "next_token s = Some (t, rest)"
  shows "\<exists>pre x. s = pre @ x # rest \<and> \<not> is_space x"
proof -
  from assms obtain c cs where s: "s = c # cs" by (cases s) (auto simp: next_token_def)
  consider (punct) "c \<in> {123, 125, 91, 93, 58, 44}"
    | (str) "c \<notin> {123, 125, 91, 93, 58, 44}" "c = 34"
    | (num) "c \<notin> {123, 125, 91, 93, 58, 44}" "c \<noteq> 34" "c = 45 \<or> is_digit c"
    | (word) "c \<notin> {123, 125, 91, 93, 58, 44}" "c \<noteq> 34" "\<not> (c = 45 \<or> is_digit c)"
    by blast
  then show ?thesis
  proof cases
    case punct
    with assms s have "rest = cs" by (auto simp: next_token_def split: if_splits)
    with s have "s = [] @ c # rest" by simp
    moreover have "\<not> is_space c" using punct by (auto simp: is_space_def)
    ultimately show ?thesis by blast
  next
    case str
    with assms s obtain str where "lex_string cs [] = Some (str, rest)"
      by (auto simp: next_token_def split: option.splits)
    from lex_string_split [OF this] obtain p where "cs = p @ 34 # rest" by blast
    with s have "s = (c # p) @ 34 # rest" by simp
    moreover have "\<not> is_space 34" by (simp add: is_space_def)
    ultimately show ?thesis by blast
  next
    case num
    with assms s have "lex_number s = Some (t, rest)"
      by (auto simp: next_token_def split: if_splits)
    from lex_number_end [OF this] obtain p d where "s = p @ d # rest" "is_digit d"
      unfolding ends_digit_def by auto
    moreover from this have "\<not> is_space d" by (auto simp: is_space_def is_digit_def)
    ultimately show ?thesis by blast
  next
    case word
    then have n: "c \<noteq> 123" "c \<noteq> 125" "c \<noteq> 91" "c \<noteq> 93" "c \<noteq> 58" "c \<noteq> 44"
      "c \<noteq> 34" "c \<noteq> 45" "\<not> is_digit c" by auto
    consider (t) "prefix (js ''true'') (c # cs)"
      | (f) "\<not> prefix (js ''true'') (c # cs)" "prefix (js ''false'') (c # cs)"
      | (n) "\<not> prefix (js ''true'') (c # cs)" "\<not> prefix (js ''false'') (c # cs)"
            "prefix (js ''null'') (c # cs)"
      | (none) "\<not> prefix (js ''true'') (c # cs)" "\<not> prefix (js ''false'') (c # cs)"
            "\<not> prefix (js ''null'') (c # cs)"
      by blast
    then show ?thesis
    proof cases
      case t
      with assms s n have r: "rest = drop 3 cs" by (simp add: next_token_def)
      from t obtain z where "c # cs = js ''true'' @ z" by (auto simp: prefix_def)
      then have "c # cs = js ''true'' @ drop 3 cs" by (auto simp: js_def)
      with r s have "s = js ''tru'' @ 101 # rest" by (simp add: js_def)
      moreover have "\<not> is_space 101" by (simp add: is_space_def)
      ultimately show ?thesis by blast
    next
      case f
      with assms s n have r: "rest = drop 4 cs" by (simp add: next_token_def)
      from f obtain z where "c # cs = js ''false'' @ z" by (auto simp: prefix_def)
      then have "c # cs = js ''false'' @ drop 4 cs" by (auto simp: js_def)
      with r s have "s = js ''fals'' @ 101 # rest" by (simp add: js_def)
      moreover have "\<not> is_space 101" by (simp add: is_space_def)
      ultimately show ?thesis by blast
    next
      case n
      note k = n
      with assms s \<open>c \<noteq> 123\<close> \<open>c \<noteq> 125\<close> \<open>c \<noteq> 91\<close> \<open>c \<noteq> 93\<close> \<open>c \<noteq> 58\<close>
        \<open>c \<noteq> 44\<close> \<open>c \<noteq> 34\<close> \<open>c \<noteq> 45\<close> \<open>\<not> is_digit c\<close>
      have r: "rest = drop 3 cs" by (simp add: next_token_def)
      from k obtain z where "c # cs = js ''null'' @ z" by (auto simp: prefix_def)
      then have "c # cs = js ''null'' @ drop 3 cs" by (auto simp: js_def)
      with r s have "s = js ''nul'' @ 108 # rest" by (simp add: js_def)
      moreover have "\<not> is_space 108" by (simp add: is_space_def)
      ultimately show ?thesis by blast
    next
      case none
      with assms s n show ?thesis by (simp add: next_token_def)
    qed
  qed
qed

lemma next_token_shorter:
  "next_token s = Some (t, rest) \<Longrightarrow> length rest < length s"
proof -
  assume "next_token s = Some (t, rest)"
  from next_token_split [OF this] obtain pre x where "s = pre @ x # rest" by blast
  then show ?thesis by simp
qed

text \<open>A white-space character behind a text leaves its tokens as they are.\<close>

lemma is_space_plain:
  assumes "is_space w"
  shows "w \<noteq> 34" "w \<noteq> 92" "w \<noteq> 117" "w \<noteq> 45" "w \<noteq> 43" "w \<noteq> 46" "w \<noteq> 101" "w \<noteq> 69"
    "w \<noteq> 48" "w \<noteq> 108" "\<not> is_digit w" "hex_val w = None" "unescape w = None"
    "w \<notin> {123, 125, 91, 93, 58, 44}"
  using assms by (auto simp: is_space_def is_digit_def hex_val_def unescape_def)

lemma json_ws_space: "is_json_ws w \<Longrightarrow> is_space w"
  by (auto simp: is_json_ws_def is_space_def)

lemma lex_escape_snoc:
  assumes "is_space w"
  shows "lex_escape (s @ [w]) = map_option (\<lambda>(d, r). (d, r @ [w])) (lex_escape s)"
proof (cases s)
  case Nil
  with is_space_plain(3,13) [OF assms] show ?thesis by (simp add: lex_escape_def)
next
  case (Cons e es)
  show ?thesis
  proof (cases "e = 117")
    case False
    with Cons show ?thesis by (simp add: lex_escape_def split: option.splits)
  next
    case True
    note h = is_space_plain(12) [OF assms]
    show ?thesis
    proof (cases es)
      case Nil
      with Cons True show ?thesis by (simp add: lex_escape_def)
    next
      case e1: (Cons h1 t1)
      show ?thesis
      proof (cases t1)
        case Nil
        with Cons True e1 show ?thesis by (simp add: lex_escape_def)
      next
        case e2: (Cons h2 t2)
        show ?thesis
        proof (cases t2)
          case Nil
          with Cons True e1 e2 show ?thesis by (simp add: lex_escape_def)
        next
          case e3: (Cons h3 t3)
          show ?thesis
          proof (cases t3)
            case Nil
            with Cons True e1 e2 e3 h show ?thesis
              by (simp add: lex_escape_def split: option.splits)
          next
            case e4: (Cons h4 t4)
            with Cons True e1 e2 e3 show ?thesis
              by (simp add: lex_escape_def split: option.splits)
          qed
        qed
      qed
    qed
  qed
qed

lemma lex_string_snoc:
  assumes w: "is_space w"
  shows "lex_string (s @ [w]) acc = map_option (\<lambda>(str, r). (str, r @ [w])) (lex_string s acc)"
proof (induction s acc rule: lex_string.induct)
  case (1 acc)
  from is_space_plain(1,2) [OF w] show ?case by simp
next
  case (2 c cs acc)
  show ?case
  proof (cases "c = 34")
    case True
    then show ?thesis by simp
  next
    case n34: False
    show ?thesis
    proof (cases "c = 92")
      case True
      show ?thesis
      proof (cases "lex_escape cs")
        case None
        with n34 True lex_escape_snoc [OF w, of cs] show ?thesis by simp
      next
        case (Some x)
        obtain d r where x: "x = (d, r)" by (cases x)
        with Some have e: "lex_escape (cs @ [w]) = Some (d, r @ [w])"
          using lex_escape_snoc [OF w, of cs] by simp
        from "2.IH"(1) [OF n34 True Some x [symmetric]]
        have "lex_string (r @ [w]) (acc @ [d])
              = map_option (\<lambda>(str, r). (str, r @ [w])) (lex_string r (acc @ [d]))" .
        with n34 True Some x e show ?thesis by simp
      qed
    next
      case n92: False
      show ?thesis
      proof (cases "c < 32")
        case True
        with n34 n92 show ?thesis by simp
      next
        case False
        from "2.IH"(2) [OF n34 n92 False] n34 n92 False show ?thesis by simp
      qed
    qed
  qed
qed

lemma takeWhile_snoc:
  "\<not> P w \<Longrightarrow> takeWhile P (s @ [w]) = takeWhile P s"
  "\<not> P w \<Longrightarrow> dropWhile P (s @ [w]) = dropWhile P s @ [w]"
  by (induction s) auto

lemma lex_sign_snoc:
  "is_space w \<Longrightarrow> lex_sign (s @ [w]) = (fst (lex_sign s), snd (lex_sign s) @ [w])"
  using is_space_plain(4) [of w] by (cases s) (auto simp: lex_sign_def)

lemma lex_int_snoc:
  assumes "is_space w"
  shows "lex_int (s @ [w]) = map_option (\<lambda>(i, r). (i, r @ [w])) (lex_int s)"
proof (cases s)
  case Nil
  with is_space_plain(9,11) [OF assms] show ?thesis by (simp add: lex_int_def)
next
  case (Cons d r)
  with is_space_plain(11) [OF assms] show ?thesis
    by (simp add: lex_int_def takeWhile_snoc)
qed

lemma lex_frac_snoc:
  assumes "is_space w"
  shows "lex_frac (s @ [w]) = map_option (\<lambda>(f, r). (f, r @ [w])) (lex_frac s)"
proof (cases s)
  case Nil
  with is_space_plain(6) [OF assms] show ?thesis by (simp add: lex_frac_def)
next
  case (Cons c r)
  with is_space_plain(11) [OF assms] show ?thesis
    by (simp add: lex_frac_def takeWhile_snoc)
qed

lemma lex_exp_snoc:
  assumes "is_space w"
  shows "lex_exp (s @ [w]) = map_option (\<lambda>(e, r). (e, r @ [w])) (lex_exp s)"
proof (cases s)
  case Nil
  with is_space_plain(7,8) [OF assms] show ?thesis by (simp add: lex_exp_def)
next
  case (Cons c r)
  note d = is_space_plain(11) [OF assms]
  show ?thesis
  proof (cases "c = 101 \<or> c = 69")
    case False
    with Cons show ?thesis by (simp add: lex_exp_def)
  next
    case True
    show ?thesis
    proof (cases r)
      case Nil
      with Cons True d is_space_plain(4,5) [OF assms] show ?thesis
        by (auto simp: lex_exp_def)
    next
      case r: (Cons g t)
      with Cons True d show ?thesis
        by (auto simp: lex_exp_def takeWhile_snoc Let_def)
    qed
  qed
qed

lemma lex_number_snoc:
  assumes w: "is_space w"
  shows "lex_number (s @ [w]) = map_option (\<lambda>(t, r). (t, r @ [w])) (lex_number s)"
proof -
  obtain neg s1 where s1: "lex_sign s = (neg, s1)" by (cases "lex_sign s")
  then have s1': "lex_sign (s @ [w]) = (neg, s1 @ [w])" using lex_sign_snoc [OF w, of s] by simp
  show ?thesis
  proof (cases "lex_int s1")
    case None
    with s1 s1' lex_int_snoc [OF w, of s1] show ?thesis by (simp add: lex_number_def)
  next
    case (Some x)
    obtain ints s2 where x: "x = (ints, s2)" by (cases x)
    with Some have i: "lex_int s1 = Some (ints, s2)" "lex_int (s1 @ [w]) = Some (ints, s2 @ [w])"
      using lex_int_snoc [OF w, of s1] by simp_all
    show ?thesis
    proof (cases "lex_frac s2")
      case None
      with s1 s1' i lex_frac_snoc [OF w, of s2] show ?thesis by (simp add: lex_number_def)
    next
      case (Some y)
      obtain fracs s3 where y: "y = (fracs, s3)" by (cases y)
      with Some have f: "lex_frac s2 = Some (fracs, s3)"
        "lex_frac (s2 @ [w]) = Some (fracs, s3 @ [w])"
        using lex_frac_snoc [OF w, of s2] by simp_all
      show ?thesis
      proof (cases "lex_exp s3")
        case None
        with s1 s1' i f lex_exp_snoc [OF w, of s3] show ?thesis by (simp add: lex_number_def)
      next
        case (Some z)
        obtain e s4 where z: "z = (e, s4)" by (cases z)
        with Some have "lex_exp s3 = Some (e, s4)" "lex_exp (s3 @ [w]) = Some (e, s4 @ [w])"
          using lex_exp_snoc [OF w, of s3] by simp_all
        with s1 s1' i f show ?thesis by (simp add: lex_number_def)
      qed
    qed
  qed
qed

lemma prefix_word_snoc:
  assumes "w \<noteq> last word" "word \<noteq> []"
  shows "prefix word (s @ [w]) \<longleftrightarrow> prefix word s"
proof -
  have "word \<noteq> s @ [w]"
  proof
    assume "word = s @ [w]"
    then have "last word = w" by simp
    with assms(1) show False by simp
  qed
  then show ?thesis by (simp add: prefix_snoc)
qed

lemma next_token_snoc:
  assumes w: "is_space w" and ne: "s \<noteq> []"
  shows "next_token (s @ [w]) = map_option (\<lambda>(t, r). (t, r @ [w])) (next_token s)"
proof -
  from ne obtain c cs where s: "s = c # cs" by (cases s) auto
  have pt: "prefix (js ''true'') ((c # cs) @ [w]) \<longleftrightarrow> prefix (js ''true'') (c # cs)"
    using is_space_plain(7) [OF w] by (intro prefix_word_snoc) (simp_all add: js_def)
  have pf: "prefix (js ''false'') ((c # cs) @ [w]) \<longleftrightarrow> prefix (js ''false'') (c # cs)"
    using is_space_plain(7) [OF w] by (intro prefix_word_snoc) (simp_all add: js_def)
  have pn: "prefix (js ''null'') ((c # cs) @ [w]) \<longleftrightarrow> prefix (js ''null'') (c # cs)"
    using is_space_plain(10) [OF w] by (intro prefix_word_snoc) (simp_all add: js_def)
  have d3: "prefix (js ''true'') (c # cs) \<Longrightarrow> drop 3 (cs @ [w]) = drop 3 cs @ [w]"
    by (auto simp: prefix_def js_def)
  have d4: "prefix (js ''false'') (c # cs) \<Longrightarrow> drop 4 (cs @ [w]) = drop 4 cs @ [w]"
    by (auto simp: prefix_def js_def)
  have d3': "prefix (js ''null'') (c # cs) \<Longrightarrow> drop 3 (cs @ [w]) = drop 3 cs @ [w]"
    by (auto simp: prefix_def js_def)
  consider (punct) "c \<in> {123, 125, 91, 93, 58, 44}"
    | (str) "c \<notin> {123, 125, 91, 93, 58, 44}" "c = 34"
    | (num) "c \<notin> {123, 125, 91, 93, 58, 44}" "c \<noteq> 34" "c = 45 \<or> is_digit c"
    | (word) "c \<notin> {123, 125, 91, 93, 58, 44}" "c \<noteq> 34" "\<not> (c = 45 \<or> is_digit c)"
    by blast
  then show ?thesis
  proof cases
    case punct
    with s show ?thesis by (auto simp: next_token_def)
  next
    case str
    with s lex_string_snoc [OF w, of cs "[]"] show ?thesis
      by (auto simp: next_token_def split: option.splits)
  next
    case num
    then have "next_token ((c # cs) @ [w]) = lex_number ((c # cs) @ [w])"
      and "next_token (c # cs) = lex_number (c # cs)"
      by (auto simp: next_token_def)
    with s lex_number_snoc [OF w, of "c # cs"] show ?thesis by simp
  next
    case word
    then have n: "c \<noteq> 123" "c \<noteq> 125" "c \<noteq> 91" "c \<noteq> 93" "c \<noteq> 58" "c \<noteq> 44"
      "c \<noteq> 34" "c \<noteq> 45" "\<not> is_digit c" by auto
    have a: "next_token ((c # cs) @ [w]) =
          (if prefix (js ''true'') (c # cs) then Some (TTrue, drop 3 (cs @ [w]))
           else if prefix (js ''false'') (c # cs) then Some (TFalse, drop 4 (cs @ [w]))
           else if prefix (js ''null'') (c # cs) then Some (TNull, drop 3 (cs @ [w]))
           else None)"
      using n pt pf pn by (simp add: next_token_def)
    have b: "next_token (c # cs) =
          (if prefix (js ''true'') (c # cs) then Some (TTrue, drop 3 cs)
           else if prefix (js ''false'') (c # cs) then Some (TFalse, drop 4 cs)
           else if prefix (js ''null'') (c # cs) then Some (TNull, drop 3 cs)
           else None)"
      using n by (simp add: next_token_def)
    show ?thesis
      unfolding s a b using d3 d4 d3' by simp
  qed
qed

lemma tokenize_snoc:
  "is_json_ws w \<Longrightarrow> tokenize (s @ [w]) = tokenize s"
proof (induction "length s" arbitrary: s rule: less_induct)
  case less
  note w = less.prems
  show ?case
  proof (cases s)
    case Nil
    with w show ?thesis by simp
  next
    case (Cons c cs)
    show ?thesis
    proof (cases "is_json_ws c")
      case True
      have "length cs < length s" using Cons by simp
      from less.hyps [OF this w] True Cons show ?thesis by simp
    next
      case False
      have nt: "next_token ((c # cs) @ [w]) = map_option (\<lambda>(t, r). (t, r @ [w])) (next_token (c # cs))"
        using json_ws_space [OF w] by (rule next_token_snoc) simp
      show ?thesis
      proof (cases "next_token (c # cs)")
        case None
        with nt have "next_token (c # (cs @ [w])) = None" by simp
        with None False Cons show ?thesis by (simp only: tokenize_next append_Cons) simp
      next
        case (Some x)
        obtain t r where x: "x = (t, r)" by (cases x)
        with Some nt have a: "next_token (c # (cs @ [w])) = Some (t, r @ [w])" by simp
        from Some x have b: "next_token (c # cs) = Some (t, r)" by simp
        have "length r < length s" using next_token_shorter [OF b] Cons by simp
        from less.hyps [OF this w] have "tokenize (r @ [w]) = tokenize r" .
        with a b False Cons show ?thesis by (simp only: tokenize_next append_Cons) simp
      qed
    qed
  qed
qed

lemma tokenize_last_space:
  "tokenize s = Some ts \<Longrightarrow> s \<noteq> [] \<Longrightarrow> is_space (last s) \<Longrightarrow> is_json_ws (last s)"
proof (induction "length s" arbitrary: s ts rule: less_induct)
  case less
  from less.prems(2) obtain c cs where s: "s = c # cs" by (cases s) auto
  show ?case
  proof (cases "is_json_ws c")
    case True
    show ?thesis
    proof (cases "cs = []")
      case True
      with s \<open>is_json_ws c\<close> show ?thesis by simp
    next
      case False
      from True less.prems(1) s have t: "tokenize cs = Some ts" by simp
      have "length cs < length s" using s by simp
      from less.hyps [OF this t False] less.prems(3) s False show ?thesis by simp
    qed
  next
    case False
    with less.prems(1) s obtain t r ts' where
      n: "next_token (c # cs) = Some (t, r)" and t: "tokenize r = Some ts'"
      by (simp only: tokenize_next) (auto split: option.splits)
    from next_token_split [OF n] obtain pre x where p: "c # cs = pre @ x # r" "\<not> is_space x"
      by blast
    show ?thesis
    proof (cases "r = []")
      case True
      with p s less.prems(3) show ?thesis by simp
    next
      case nr: False
      have "length r < length s" using p(1) s by simp
      from less.hyps [OF this t nr] less.prems(3) s p(1) nr show ?thesis by simp
    qed
  qed
qed

lemma tokenize_skip_ws:
  "list_all is_json_ws ws \<Longrightarrow> tokenize (ws @ s) = tokenize s"
  by (induction ws) simp_all

lemma tokenize_dropWhile_space:
  "tokenize s = Some ts \<Longrightarrow> tokenize (dropWhile is_space s) = Some ts"
proof (induction s)
  case Nil
  then show ?case by simp
next
  case (Cons c cs)
  show ?case
  proof (cases "is_space c")
    case False
    with Cons.prems show ?thesis by simp
  next
    case True
    from tokenize_first [OF Cons.prems] have "json_start c" .
    with True have "is_json_ws c"
      using is_space_plain(1,4,11,14) [OF True]
      by (auto simp: json_start_def is_space_def)
    with Cons.prems have "tokenize cs = Some ts" by simp
    from Cons.IH [OF this] True show ?thesis by simp
  qed
qed

lemma tokenize_rtrim:
  "tokenize s = Some ts \<Longrightarrow> tokenize (rev (dropWhile is_space (rev s))) = Some ts"
proof (induction s arbitrary: ts rule: rev_induct)
  case Nil
  then show ?case by simp
next
  case (snoc w s)
  show ?case
  proof (cases "is_space w")
    case False
    with snoc.prems show ?thesis by simp
  next
    case True
    from tokenize_last_space [OF snoc.prems] True have j: "is_json_ws w" by simp
    with snoc.prems have "tokenize s = Some ts" by (simp add: tokenize_snoc)
    from snoc.IH [OF this] True show ?thesis by simp
  qed
qed

lemma tokenize_trim: "tokenize s = Some ts \<Longrightarrow> tokenize (trim s) = Some ts"
  unfolding trim_def by (intro tokenize_rtrim tokenize_dropWhile_space)

lemma json_parse_trim: "json_parse j = Some v \<Longrightarrow> json_parse (trim j) = Some v"
proof -
  assume a: "json_parse j = Some v"
  then obtain ts where t: "tokenize j = Some ts" and p: "parse_tokens (NeedValue, []) ts = Some v"
    by (auto simp: json_parse_def split: option.splits)
  from tokenize_trim [OF t] p show ?thesis by (simp add: json_parse_def)
qed

lemma json_parse_trim_nonempty: "json_parse j = Some v \<Longrightarrow> trim j \<noteq> []"
proof
  assume "json_parse j = Some v" "trim j = []"
  with json_parse_trim [of j v] have "json_parse [] = Some v" by simp
  then show False by (simp add: json_parse_def)
qed

text \<open>
  Text appended to a text that does not end with a digit is tokenized on its own, and the
  parser accepts no proper prefix of a text that it accepts.
\<close>

lemma lex_escape_append:
  "lex_escape s = Some (d, r) \<Longrightarrow> lex_escape (s @ P) = Some (d, r @ P)"
  by (auto simp: lex_escape_def split: list.splits option.splits if_splits)

lemma lex_string_append:
  "lex_string s acc = Some (str, rest) \<Longrightarrow> lex_string (s @ P) acc = Some (str, rest @ P)"
proof (induction s acc rule: lex_string.induct)
  case (1 acc)
  then show ?case by simp
next
  case (2 c cs acc)
  show ?case
  proof (cases "c = 34")
    case True
    with "2.prems" show ?thesis by simp
  next
    case n34: False
    show ?thesis
    proof (cases "c = 92")
      case True
      with "2.prems" n34 obtain d r where
        e: "lex_escape cs = Some (d, r)" and r: "lex_string r (acc @ [d]) = Some (str, rest)"
        by (auto split: option.splits)
      from "2.IH"(1) [OF n34 True e refl r]
      have "lex_string (r @ P) (acc @ [d]) = Some (str, rest @ P)" .
      with n34 True lex_escape_append [OF e, of P] show ?thesis by simp
    next
      case n92: False
      with "2.prems" n34 have c32: "\<not> c < 32" and r: "lex_string cs (acc @ [c]) = Some (str, rest)"
        by (auto split: if_splits)
      from "2.IH"(2) [OF n34 n92 c32 r] n34 n92 c32 show ?thesis by simp
    qed
  qed
qed

lemma takeWhile_append_stop:
  "dropWhile Q xs \<noteq> [] \<Longrightarrow> takeWhile Q (xs @ ys) = takeWhile Q xs"
  "dropWhile Q xs \<noteq> [] \<Longrightarrow> dropWhile Q (xs @ ys) = dropWhile Q xs @ ys"
  by (induction xs) auto

lemma lex_sign_append:
  "s \<noteq> [] \<Longrightarrow> lex_sign (s @ P) = (fst (lex_sign s), snd (lex_sign s) @ P)"
  by (cases s) (auto simp: lex_sign_def)

lemma lex_int_append:
  "lex_int s = Some (i, r) \<Longrightarrow> r \<noteq> [] \<Longrightarrow> lex_int (s @ P) = Some (i, r @ P)"
  by (cases s) (auto simp: lex_int_def takeWhile_append_stop split: if_splits)

lemma lex_frac_append:
  "lex_frac s = Some (f, r) \<Longrightarrow> r \<noteq> [] \<Longrightarrow> lex_frac (s @ P) = Some (f, r @ P)"
  by (cases s) (auto simp: lex_frac_def takeWhile_append_stop split: if_splits)

lemma lex_exp_append:
  assumes "lex_exp s = Some (e, r)" "r \<noteq> []"
  shows "lex_exp (s @ P) = Some (e, r @ P)"
proof (cases s)
  case Nil
  with assms show ?thesis by (simp add: lex_exp_def)
next
  case (Cons c t)
  show ?thesis
  proof (cases "c = 101 \<or> c = 69")
    case False
    with assms(1) Cons have r: "r = c # t" and e: "e = 0" by (auto simp: lex_exp_def)
    have "lex_exp ((c # t) @ P) = Some (0, (c # t) @ P)" using False by (simp add: lex_exp_def)
    with r e Cons show ?thesis by simp
  next
    case True
    show ?thesis
    proof (cases t)
      case Nil
      with assms Cons True show ?thesis by (auto simp: lex_exp_def)
    next
      case t: (Cons g u)
      with assms Cons True show ?thesis
        by (auto simp: lex_exp_def Let_def takeWhile_append_stop split: if_splits)
    qed
  qed
qed

lemma lex_number_append:
  assumes a: "lex_number s = Some (t, rest)" and ne: "rest \<noteq> []"
  shows "lex_number (s @ P) = Some (t, rest @ P)"
proof -
  obtain neg s1 where s1: "lex_sign s = (neg, s1)" by (cases "lex_sign s")
  from a s1 obtain ints s2 where i: "lex_int s1 = Some (ints, s2)"
    by (auto simp: lex_number_def split: option.splits)
  from a s1 i obtain fracs s3 where f: "lex_frac s2 = Some (fracs, s3)"
    by (auto simp: lex_number_def split: option.splits)
  from a s1 i f obtain e where x: "lex_exp s3 = Some (e, rest)"
    and t: "t = TNumber neg (digits_val (ints @ fracs)) (e - int (length fracs))"
    by (auto simp: lex_number_def split: option.splits)
  have s3: "s3 \<noteq> []"
  proof
    assume "s3 = []"
    with x ne show False by (simp add: lex_exp_def)
  qed
  have s2: "s2 \<noteq> []"
  proof
    assume "s2 = []"
    with f s3 show False by (simp add: lex_frac_def)
  qed
  have sne: "s \<noteq> []"
  proof
    assume "s = []"
    with s1 i show False by (simp add: lex_sign_def lex_int_def)
  qed
  have 1: "lex_sign (s @ P) = (neg, s1 @ P)" using lex_sign_append [OF sne, of P] s1 by simp
  have 2: "lex_int (s1 @ P) = Some (ints, s2 @ P)" using i s2 by (rule lex_int_append)
  have 3: "lex_frac (s2 @ P) = Some (fracs, s3 @ P)" using f s3 by (rule lex_frac_append)
  have 4: "lex_exp (s3 @ P) = Some (e, rest @ P)" using x ne by (rule lex_exp_append)
  show ?thesis using 1 2 3 4 t by (simp add: lex_number_def)
qed

lemma next_token_append:
  assumes n: "next_token s = Some (t, rest)" and d: "rest = [] \<longrightarrow> \<not> is_digit (last s)"
  shows "next_token (s @ P) = Some (t, rest @ P)"
proof -
  from n obtain c cs where s: "s = c # cs" by (cases s) (auto simp: next_token_def)
  consider (punct) "c \<in> {123, 125, 91, 93, 58, 44}"
    | (str) "c \<notin> {123, 125, 91, 93, 58, 44}" "c = 34"
    | (num) "c \<notin> {123, 125, 91, 93, 58, 44}" "c \<noteq> 34" "c = 45 \<or> is_digit c"
    | (word) "c \<notin> {123, 125, 91, 93, 58, 44}" "c \<noteq> 34" "\<not> (c = 45 \<or> is_digit c)"
    by blast
  then show ?thesis
  proof cases
    case punct
    with n s show ?thesis by (auto simp: next_token_def split: if_splits)
  next
    case str
    with n s obtain str where l: "lex_string cs [] = Some (str, rest)" and t: "t = TString str"
      by (auto simp: next_token_def split: option.splits)
    from lex_string_append [OF l, of P] str s t show ?thesis by (auto simp: next_token_def)
  next
    case num
    with n s have l: "lex_number s = Some (t, rest)"
      by (auto simp: next_token_def split: if_splits)
    have "rest \<noteq> []"
    proof
      assume r: "rest = []"
      from lex_number_end [OF l] obtain p x where "s = p @ x # rest" "is_digit x"
        unfolding ends_digit_def by blast
      with r have "is_digit (last s)" by simp
      with d r show False by simp
    qed
    from lex_number_append [OF l this, of P] have "lex_number ((c # cs) @ P) = Some (t, rest @ P)"
      using s by simp
    moreover from num have "next_token ((c # cs) @ P) = lex_number ((c # cs) @ P)"
      by (auto simp: next_token_def)
    ultimately show ?thesis using s by simp
  next
    case word
    then have k: "c \<noteq> 123" "c \<noteq> 125" "c \<noteq> 91" "c \<noteq> 93" "c \<noteq> 58" "c \<noteq> 44"
      "c \<noteq> 34" "c \<noteq> 45" "\<not> is_digit c" by auto
    have a: "next_token (c # (cs @ P)) =
          (if prefix (js ''true'') (c # (cs @ P)) then Some (TTrue, drop 3 (cs @ P))
           else if prefix (js ''false'') (c # (cs @ P)) then Some (TFalse, drop 4 (cs @ P))
           else if prefix (js ''null'') (c # (cs @ P)) then Some (TNull, drop 3 (cs @ P))
           else None)"
      using k by (simp add: next_token_def)
    have b: "next_token (c # cs) =
          (if prefix (js ''true'') (c # cs) then Some (TTrue, drop 3 cs)
           else if prefix (js ''false'') (c # cs) then Some (TFalse, drop 4 cs)
           else if prefix (js ''null'') (c # cs) then Some (TNull, drop 3 cs)
           else None)"
      using k by (simp add: next_token_def)
    consider (t) "prefix (js ''true'') (c # cs)"
      | (f) "prefix (js ''false'') (c # cs)"
      | (n) "prefix (js ''null'') (c # cs)"
      | (none) "\<not> prefix (js ''true'') (c # cs)" "\<not> prefix (js ''false'') (c # cs)"
            "\<not> prefix (js ''null'') (c # cs)"
      by blast
    then show ?thesis
    proof cases
      case t
      then obtain z where z: "c # cs = js ''true'' @ z" by (auto simp: prefix_def)
      then have "c = 116" "cs = js ''rue'' @ z" by (auto simp: js_def)
      with n s b a show ?thesis by (auto simp: js_def)
    next
      case f
      then obtain z where z: "c # cs = js ''false'' @ z" by (auto simp: prefix_def)
      then have "c = 102" "cs = js ''alse'' @ z" by (auto simp: js_def)
      with n s b a show ?thesis by (auto simp: js_def)
    next
      case n
      note pn = n
      then obtain z where z: "c # cs = js ''null'' @ z" by (auto simp: prefix_def)
      then have "c = 110" "cs = js ''ull'' @ z" by (auto simp: js_def)
      with \<open>next_token s = Some (t, rest)\<close> s b a show ?thesis by (auto simp: js_def)
    next
      case none
      with n s b show ?thesis by simp
    qed
  qed
qed

lemma tokenize_append:
  "tokenize s = Some ts \<Longrightarrow> s = [] \<or> \<not> is_digit (last s) \<Longrightarrow>
   tokenize (s @ P) = map_option ((@) ts) (tokenize P)"
proof (induction "length s" arbitrary: s ts rule: less_induct)
  case less
  show ?case
  proof (cases s)
    case Nil
    with less.prems(1) show ?thesis by (cases "tokenize P") simp_all
  next
    case (Cons c cs)
    show ?thesis
    proof (cases "is_json_ws c")
      case True
      with less.prems(1) Cons have t: "tokenize cs = Some ts" by simp
      have l: "length cs < length s" using Cons by simp
      have "cs = [] \<or> \<not> is_digit (last cs)" using less.prems(2) Cons by auto
      from less.hyps [OF l t this] True Cons show ?thesis by simp
    next
      case False
      with less.prems(1) Cons obtain t r ts' where
        n: "next_token (c # cs) = Some (t, r)" and t: "tokenize r = Some ts'"
        and ts: "ts = t # ts'"
        by (simp only: tokenize_next) (auto split: option.splits)
      from next_token_split [OF n] obtain pre x where p: "c # cs = pre @ x # r" by blast
      have l: "length r < length s" using p Cons by simp
      have d: "r = [] \<or> \<not> is_digit (last r)" using less.prems(2) Cons p by auto
      have d': "r = [] \<longrightarrow> \<not> is_digit (last (c # cs))" using less.prems(2) Cons by auto
      from next_token_append [OF n d', of P]
      have a: "next_token (c # (cs @ P)) = Some (t, r @ P)" by simp
      from less.hyps [OF l t d]
      have "tokenize (r @ P) = map_option ((@) ts') (tokenize P)" .
      with a False have "tokenize (c # (cs @ P)) = map_option ((#) t) (map_option ((@) ts') (tokenize P))"
        by (simp only: tokenize_next) simp
      then have "tokenize (s @ P) = map_option ((#) t) (map_option ((@) ts') (tokenize P))"
        by (simp only: Cons append_Cons)
      also have "\<dots> = map_option ((@) ts) (tokenize P)"
        by (cases "tokenize P") (simp_all add: ts)
      finally show ?thesis .
    qed
  qed
qed

lemma parse_tokens_complete:
  "parse_tokens st [] = Some v \<Longrightarrow> st = (Complete v, [])"
  by (erule parse_tokens.elims) simp_all

lemma parse_tokens_prefix_free:
  "parse_tokens st (ts1 @ ts2) = Some v' \<Longrightarrow> parse_tokens st ts1 = Some v \<Longrightarrow>
   ts2 = [] \<and> v' = v"
proof (induction ts1 arbitrary: st)
  case Nil
  from parse_tokens_complete [OF Nil.prems(2)] have st: "st = (Complete v, [])" .
  show ?case
  proof (cases ts2)
    case Nil
    with Nil.prems st show ?thesis by simp
  next
    case (Cons t ts)
    with Nil.prems(1) st show ?thesis by simp
  qed
next
  case (Cons t ts1)
  from Cons.prems(2) obtain st' where s: "parse_step st t = Some st'"
    and p: "parse_tokens st' ts1 = Some v"
    by (auto split: option.splits)
  from Cons.prems(1) s have "parse_tokens st' (ts1 @ ts2) = Some v'" by simp
  from Cons.IH [OF this p] show ?case .
qed

lemma json_parse_append:
  assumes "json_parse j = Some v" "\<not> is_digit (last j)" "json_parse (j @ P) = Some v'"
  shows "v' = v"
proof -
  from assms(1) obtain tj where tj: "tokenize j = Some tj"
    and pj: "parse_tokens (NeedValue, []) tj = Some v"
    by (auto simp: json_parse_def split: option.splits)
  from assms(3) obtain ts where ts: "tokenize (j @ P) = Some ts"
    and ps: "parse_tokens (NeedValue, []) ts = Some v'"
    by (auto simp: json_parse_def split: option.splits)
  from tokenize_append [OF tj, of P] assms(2) ts obtain tp where "ts = tj @ tp"
    by (cases "tokenize P") auto
  with ps have "parse_tokens (NeedValue, []) (tj @ tp) = Some v'" by simp
  from parse_tokens_prefix_free [OF this pj] show ?thesis by simp
qed

text \<open>
  A text whose first token is neither a bracket nor a string, and that has an opening bracket
  further on, is not a JSON text; a JSON text whose first token is a string is that string.
\<close>

definition bracket_free :: "jsstring \<Rightarrow> bool" where
  "bracket_free s \<longleftrightarrow> 123 \<notin> set s \<and> 91 \<notin> set s"

lemma digits_bracket_free: "bracket_free (takeWhile is_digit s)"
proof -
  have "\<forall>x \<in> set (takeWhile is_digit s). is_digit x" by (auto dest: set_takeWhileD)
  then show ?thesis by (auto simp: bracket_free_def is_digit_def)
qed

lemma bracket_free_append [simp]:
  "bracket_free (a @ b) \<longleftrightarrow> bracket_free a \<and> bracket_free b"
  by (auto simp: bracket_free_def)

lemma lex_sign_consumed: "lex_sign s = (neg, s1) \<Longrightarrow> \<exists>p. s = p @ s1 \<and> bracket_free p"
proof -
  assume a: "lex_sign s = (neg, s1)"
  show ?thesis
  proof (cases s)
    case Nil
    with a have "s = [] @ s1 \<and> bracket_free []" by (simp add: lex_sign_def bracket_free_def)
    then show ?thesis by blast
  next
    case (Cons c r)
    show ?thesis
    proof (cases "c = 45")
      case True
      with a Cons have "s = [45] @ s1 \<and> bracket_free [45]"
        by (simp add: lex_sign_def bracket_free_def)
      then show ?thesis by blast
    next
      case False
      with a Cons have "s = [] @ s1 \<and> bracket_free []" by (simp add: lex_sign_def bracket_free_def)
      then show ?thesis by blast
    qed
  qed
qed

lemma lex_int_consumed: "lex_int s = Some (ints, s2) \<Longrightarrow> \<exists>p. s = p @ s2 \<and> bracket_free p"
proof -
  assume a: "lex_int s = Some (ints, s2)"
  then obtain d r where s: "s = d # r" by (cases s) (auto simp: lex_int_def)
  show ?thesis
  proof (cases "d = 48")
    case True
    with a s have "s2 = r" by (simp add: lex_int_def)
    with s True have "s = [48] @ s2" by simp
    moreover have "bracket_free [48]" by (simp add: bracket_free_def)
    ultimately show ?thesis by blast
  next
    case False
    with a s have "s2 = dropWhile is_digit s" by (auto simp: lex_int_def split: if_splits)
    then have "s = takeWhile is_digit s @ s2" by simp
    with digits_bracket_free [of s] show ?thesis by blast
  qed
qed

lemma lex_frac_consumed: "lex_frac s = Some (fracs, s3) \<Longrightarrow> \<exists>p. s = p @ s3 \<and> bracket_free p"
proof -
  assume a: "lex_frac s = Some (fracs, s3)"
  show ?thesis
  proof (cases s)
    case Nil
    with a have "s = [] @ s3 \<and> bracket_free []" by (simp add: lex_frac_def bracket_free_def)
    then show ?thesis by blast
  next
    case (Cons c r)
    show ?thesis
    proof (cases "c = 46")
      case False
      with a Cons have "s = [] @ s3 \<and> bracket_free []" by (simp add: lex_frac_def bracket_free_def)
      then show ?thesis by blast
    next
      case True
      with a Cons have "s3 = dropWhile is_digit r" by (auto simp: lex_frac_def split: if_splits)
      then have "s = (46 # takeWhile is_digit r) @ s3" using Cons True by simp
      moreover have "bracket_free (46 # takeWhile is_digit r)"
        using digits_bracket_free [of r] by (simp add: bracket_free_def)
      ultimately show ?thesis by blast
    qed
  qed
qed

lemma lex_exp_consumed: "lex_exp s = Some (e, rest) \<Longrightarrow> \<exists>p. s = p @ rest \<and> bracket_free p"
proof -
  assume a: "lex_exp s = Some (e, rest)"
  show ?thesis
  proof (cases s)
    case Nil
    with a have "s = [] @ rest \<and> bracket_free []" by (simp add: lex_exp_def bracket_free_def)
    then show ?thesis by blast
  next
    case (Cons c r)
    show ?thesis
    proof (cases "c = 101 \<or> c = 69")
      case False
      with a Cons have "s = [] @ rest \<and> bracket_free []" by (simp add: lex_exp_def bracket_free_def)
      then show ?thesis by blast
    next
      case True
      define r' where "r' = (case r of [] \<Rightarrow> r | g # t \<Rightarrow> if g = 43 \<or> g = 45 then t else r)"
      have pre: "\<exists>p. r = p @ r' \<and> bracket_free p"
      proof (cases r)
        case Nil
        then have "r = [] @ r' \<and> bracket_free []" by (simp add: r'_def bracket_free_def)
        then show ?thesis by blast
      next
        case g: (Cons g t)
        show ?thesis
        proof (cases "g = 43 \<or> g = 45")
          case True
          with g have "r = [g] @ r' \<and> bracket_free [g]" by (auto simp: r'_def bracket_free_def)
          then show ?thesis by blast
        next
          case False
          with g have "r = [] @ r' \<and> bracket_free []" by (auto simp: r'_def bracket_free_def)
          then show ?thesis by blast
        qed
      qed
      from a Cons True have e: "rest = dropWhile is_digit r'"
        by (auto simp: lex_exp_def r'_def Let_def split: if_splits list.splits)
      from pre obtain p where p: "r = p @ r'" "bracket_free p" by blast
      have "s = (c # p @ takeWhile is_digit r') @ rest" using Cons p(1) e by simp
      moreover have "bracket_free (c # p @ takeWhile is_digit r')"
        using True p(2) digits_bracket_free [of r'] by (auto simp: bracket_free_def)
      ultimately show ?thesis by blast
    qed
  qed
qed

lemma lex_number_consumed:
  assumes "lex_number s = Some (t, rest)"
  shows "\<exists>p. s = p @ rest \<and> bracket_free p" and "\<exists>neg m e. t = TNumber neg m e"
proof -
  obtain neg s1 where s1: "lex_sign s = (neg, s1)" by (cases "lex_sign s")
  from assms s1 obtain ints s2 where i: "lex_int s1 = Some (ints, s2)"
    by (auto simp: lex_number_def split: option.splits)
  from assms s1 i obtain fracs s3 where f: "lex_frac s2 = Some (fracs, s3)"
    by (auto simp: lex_number_def split: option.splits)
  from assms s1 i f obtain e where x: "lex_exp s3 = Some (e, rest)"
    and t: "t = TNumber neg (digits_val (ints @ fracs)) (e - int (length fracs))"
    by (auto simp: lex_number_def split: option.splits)
  from t show "\<exists>neg m e. t = TNumber neg m e" by blast
  from lex_sign_consumed [OF s1] obtain p1 where p1: "s = p1 @ s1" "bracket_free p1" by blast
  from lex_int_consumed [OF i] obtain p2 where p2: "s1 = p2 @ s2" "bracket_free p2" by blast
  from lex_frac_consumed [OF f] obtain p3 where p3: "s2 = p3 @ s3" "bracket_free p3" by blast
  from lex_exp_consumed [OF x] obtain p4 where p4: "s3 = p4 @ rest" "bracket_free p4" by blast
  have "s = (p1 @ p2 @ p3 @ p4) @ rest" using p1(1) p2(1) p3(1) p4(1) by simp
  moreover have "bracket_free (p1 @ p2 @ p3 @ p4)" using p1(2) p2(2) p3(2) p4(2) by simp
  ultimately show "\<exists>p. s = p @ rest \<and> bracket_free p" by blast
qed

text \<open>A token that does not start with a bracket or a quote is a scalar or a closing mark,
  and it consumes no opening bracket.\<close>

definition scalar_or_mark :: "token \<Rightarrow> bool" where
  "scalar_or_mark t \<longleftrightarrow>
     (case t of TLBrace \<Rightarrow> False | TLBrack \<Rightarrow> False | TString s \<Rightarrow> False | _ \<Rightarrow> True)"

lemma next_token_plain:
  assumes n: "next_token (c # cs) = Some (t, rest)" and c: "c \<noteq> 123" "c \<noteq> 91" "c \<noteq> 34"
  shows "\<exists>p. c # cs = p @ rest \<and> bracket_free p" and "scalar_or_mark t"
proof -
  consider (punct) "c \<in> {125, 93, 58, 44}"
    | (num) "c \<notin> {125, 93, 58, 44}" "c = 45 \<or> is_digit c"
    | (word) "c \<notin> {125, 93, 58, 44}" "\<not> (c = 45 \<or> is_digit c)"
    by blast
  then have "(\<exists>p. c # cs = p @ rest \<and> bracket_free p) \<and> scalar_or_mark t"
  proof cases
    case punct
    with n c have "rest = cs" and "scalar_or_mark t"
      by (auto simp: next_token_def scalar_or_mark_def split: if_splits)
    moreover have "bracket_free [c]" using c by (simp add: bracket_free_def)
    moreover have "c # cs = [c] @ cs" by simp
    ultimately show ?thesis by blast
  next
    case num
    with n c have l: "lex_number (c # cs) = Some (t, rest)"
      by (auto simp: next_token_def split: if_splits)
    from lex_number_consumed [OF l] show ?thesis by (auto simp: scalar_or_mark_def)
  next
    case word
    then have k: "c \<noteq> 125" "c \<noteq> 93" "c \<noteq> 58" "c \<noteq> 44" "c \<noteq> 45" "\<not> is_digit c" by auto
    have b: "next_token (c # cs) =
          (if prefix (js ''true'') (c # cs) then Some (TTrue, drop 3 cs)
           else if prefix (js ''false'') (c # cs) then Some (TFalse, drop 4 cs)
           else if prefix (js ''null'') (c # cs) then Some (TNull, drop 3 cs)
           else None)"
      using k c by (simp add: next_token_def)
    consider (t) "prefix (js ''true'') (c # cs)"
      | (f) "\<not> prefix (js ''true'') (c # cs)" "prefix (js ''false'') (c # cs)"
      | (n) "\<not> prefix (js ''true'') (c # cs)" "\<not> prefix (js ''false'') (c # cs)"
            "prefix (js ''null'') (c # cs)"
      | (none) "\<not> prefix (js ''true'') (c # cs)" "\<not> prefix (js ''false'') (c # cs)"
            "\<not> prefix (js ''null'') (c # cs)"
      by blast
    then show ?thesis
    proof cases
      case t
      with n b have r: "rest = drop 3 cs" "t = TTrue" by simp_all
      from t obtain z where "c # cs = js ''true'' @ z" by (auto simp: prefix_def)
      then have "c # cs = js ''true'' @ drop 3 cs" by (auto simp: js_def)
      moreover have "bracket_free (js ''true'')" by (simp add: bracket_free_def js_def)
      ultimately show ?thesis using r by (auto simp: scalar_or_mark_def)
    next
      case f
      with n b have r: "rest = drop 4 cs" "t = TFalse" by simp_all
      from f obtain z where "c # cs = js ''false'' @ z" by (auto simp: prefix_def)
      then have "c # cs = js ''false'' @ drop 4 cs" by (auto simp: js_def)
      moreover have "bracket_free (js ''false'')" by (simp add: bracket_free_def js_def)
      ultimately show ?thesis using r by (auto simp: scalar_or_mark_def)
    next
      case n
      with \<open>next_token (c # cs) = Some (t, rest)\<close> b have r: "rest = drop 3 cs" "t = TNull"
        by simp_all
      from n obtain z where "c # cs = js ''null'' @ z" by (auto simp: prefix_def)
      then have "c # cs = js ''null'' @ drop 3 cs" by (auto simp: js_def)
      moreover have "bracket_free (js ''null'')" by (simp add: bracket_free_def js_def)
      ultimately show ?thesis using r by (auto simp: scalar_or_mark_def)
    next
      case none
      with n b show ?thesis by simp
    qed
  qed
  then show "\<exists>p. c # cs = p @ rest \<and> bracket_free p" and "scalar_or_mark t" by simp_all
qed

lemma tokenize_Nil_ws: "tokenize s = Some [] \<Longrightarrow> list_all is_json_ws s"
proof (induction s)
  case Nil
  show ?case by simp
next
  case (Cons c cs)
  show ?case
  proof (cases "is_json_ws c")
    case True
    with Cons show ?thesis by simp
  next
    case False
    with Cons.prems have "(case next_token (c # cs) of None \<Rightarrow> None
              | Some (t, rest) \<Rightarrow> map_option ((#) t) (tokenize rest)) = Some []"
      by (simp only: tokenize_next) simp
    then show ?thesis by (auto split: option.splits)
  qed
qed

lemma tokenize_dropWhile_ws: "tokenize (dropWhile is_json_ws s) = tokenize s"
  by (induction s) simp_all

lemma parse_scalar_then_more:
  "scalar_or_mark t \<Longrightarrow> parse_tokens (NeedValue, []) (t # t' # ts) = None"
  by (cases t) (simp_all add: scalar_or_mark_def)

lemma json_parse_prose_start:
  assumes d: "dropWhile is_json_ws s = c # cs" and c: "c \<noteq> 123" "c \<noteq> 91" "c \<noteq> 34"
    and b: "123 \<in> set cs \<or> 91 \<in> set cs"
  shows "json_parse s = None"
proof (rule ccontr)
  assume "json_parse s \<noteq> None"
  then obtain v ts where ts: "tokenize s = Some ts" and p: "parse_tokens (NeedValue, []) ts = Some v"
    by (auto simp: json_parse_def split: option.splits)
  from ts d have t: "tokenize (c # cs) = Some ts" using tokenize_dropWhile_ws [of s] by simp
  have nws: "\<not> is_json_ws c" using d hd_dropWhile [of is_json_ws s] by auto
  with t obtain tk r ts' where
    n: "next_token (c # cs) = Some (tk, r)" and tr: "tokenize r = Some ts'" and e: "ts = tk # ts'"
    by (simp only: tokenize_next) (auto split: option.splits)
  from next_token_plain [OF n c] obtain pre where pre: "c # cs = pre @ r" "bracket_free pre"
    and sm: "scalar_or_mark tk" by blast
  from b have "123 \<in> set (c # cs) \<or> 91 \<in> set (c # cs)" by auto
  with pre have "123 \<in> set r \<or> 91 \<in> set r" by (auto simp: bracket_free_def)
  moreover have "\<not> is_json_ws 123" "\<not> is_json_ws 91" by (simp_all add: is_json_ws_def)
  ultimately have "\<not> list_all is_json_ws r" unfolding list_all_iff by blast
  with tokenize_Nil_ws [of r] tr have "ts' \<noteq> []" by auto
  then obtain t' ts'' where "ts' = t' # ts''" by (cases ts') auto
  with e p parse_scalar_then_more [OF sm] show False by simp
qed

lemma json_parse_quote_start:
  assumes d: "dropWhile is_json_ws s = 34 # cs" and p: "json_parse s = Some v"
  shows "\<exists>str. v = JString str"
proof -
  from p obtain ts where ts: "tokenize s = Some ts" and pt: "parse_tokens (NeedValue, []) ts = Some v"
    by (auto simp: json_parse_def split: option.splits)
  from ts d have t: "tokenize (34 # cs) = Some ts" using tokenize_dropWhile_ws [of s] by simp
  then obtain str r ts' where e: "ts = TString str # ts'"
    by (auto simp: is_json_ws_def split: option.splits)
  show ?thesis
  proof (cases ts')
    case Nil
    with e pt have "v = JString str" by simp
    then show ?thesis by blast
  next
    case (Cons t' ts'')
    with e pt show ?thesis by simp
  qed
qed

subsection \<open>Removal of the fence markers and trimming\<close>

text \<open>The text with its fence markers removed, as stage 0 does before trimming.\<close>

definition unfenced :: "jsstring \<Rightarrow> jsstring" where
  "unfenced s = remove_all FENCE (remove_all (FENCE @ js ''json'') s)"

lemma set_remove_all: "set (remove_all pat s) \<subseteq> set s"
proof (induction pat s rule: remove_all.induct)
  case (1 pat)
  show ?case by simp
next
  case (2 pat c cs)
  show ?case
  proof (cases "pat \<noteq> [] \<and> prefix pat (c # cs)")
    case True
    from "2.IH"(1) [OF True] have "set (remove_all pat (drop (length pat) (c # cs)))
        \<subseteq> set (drop (length pat) (c # cs))" .
    also have "\<dots> \<subseteq> set (c # cs)" by (rule set_drop_subset)
    finally show ?thesis using True by simp
  next
    case False
    from "2.IH"(2) [OF False] False show ?thesis by auto
  qed
qed

lemma drop_append_le: "n \<le> length X \<Longrightarrow> drop n (X @ B) = drop n X @ B"
  by simp

lemma remove_all_append:
  "B = [] \<or> hd B \<notin> set pat \<Longrightarrow>
   remove_all pat (A @ B) = remove_all pat A @ remove_all pat B"
proof (induction "length A" arbitrary: A rule: less_induct)
  case less
  show ?case
  proof (cases A)
    case Nil
    then show ?thesis by simp
  next
    case (Cons a A')
    show ?thesis
    proof (cases "pat \<noteq> [] \<and> prefix pat (a # A')")
      case True
      then have p: "prefix pat ((a # A') @ B)" by (simp add: prefix_append del: append_Cons)
      from True have l: "length pat \<le> length (a # A')" by (auto dest: prefix_length_le)
      from True have "0 < length pat" by simp
      then have "length (drop (length pat) (a # A')) < length A" using Cons by simp
      from less.hyps [OF this less.prems]
      have ih: "remove_all pat (drop (length pat) (a # A') @ B)
                = remove_all pat (drop (length pat) (a # A')) @ remove_all pat B" .
      have "remove_all pat ((a # A') @ B) = remove_all pat (drop (length pat) ((a # A') @ B))"
        using True p by simp
      also have "drop (length pat) ((a # A') @ B) = drop (length pat) (a # A') @ B"
        using l by (rule drop_append_le)
      finally have "remove_all pat ((a # A') @ B)
                = remove_all pat (drop (length pat) (a # A')) @ remove_all pat B"
        using ih by simp
      moreover have "remove_all pat (a # A') = remove_all pat (drop (length pat) (a # A'))"
        using True by simp
      ultimately show ?thesis using Cons by simp
    next
      case False
      have np: "\<not> (pat \<noteq> [] \<and> prefix pat ((a # A') @ B))"
      proof
        assume h: "pat \<noteq> [] \<and> prefix pat ((a # A') @ B)"
        then have "prefix pat (a # A') \<or> (\<exists>us. pat = (a # A') @ us \<and> prefix us B)"
          by (simp only: prefix_append)
        with False h obtain us where us: "pat = (a # A') @ us" "prefix us B" by blast
        show False
        proof (cases us)
          case Nil
          with us(1) have "prefix pat (a # A')" by simp
          with False h show False by simp
        next
          case u: (Cons u us')
          with us(2) obtain B' where "B = u # B'" by (auto simp: prefix_def)
          moreover from u us(1) have "u \<in> set pat" by simp
          ultimately show False using less.prems by simp
        qed
      qed
      have "length A' < length A" using Cons by simp
      from less.hyps [OF this less.prems]
      have ih: "remove_all pat (A' @ B) = remove_all pat A' @ remove_all pat B" .
      have "remove_all pat ((a # A') @ B) = a # remove_all pat (A' @ B)"
        using np by auto
      moreover have "remove_all pat (a # A') = a # remove_all pat A'"
        using False by auto
      ultimately show ?thesis using ih Cons by simp
    qed
  qed
qed

lemma fence_not_across:
  assumes "\<not> sublist FENCE (a # A)" "last (a # A) \<noteq> 96"
  shows "\<not> prefix FENCE ((a # A) @ B)"
proof
  assume p: "prefix FENCE ((a # A) @ B)"
  show False
  proof (cases A)
    case Nil
    with p assms(2) show False by (simp add: FENCE_def)
  next
    case A: (Cons b A')
    show False
    proof (cases A')
      case Nil
      with p A assms(2) show False by (simp add: FENCE_def)
    next
      case (Cons c C)
      with p A have "a # A = FENCE @ C" by (simp add: FENCE_def)
      then have "prefix FENCE (a # A)" by (rule prefixI)
      then have "sublist FENCE (a # A)" by (rule prefix_imp_sublist)
      with assms(1) show False by simp
    qed
  qed
qed

lemma remove_fence_keep:
  "\<not> sublist FENCE A \<Longrightarrow> A = [] \<or> last A \<noteq> 96 \<Longrightarrow>
   remove_all FENCE (A @ B) = A @ remove_all FENCE B"
proof (induction A)
  case Nil
  show ?case by simp
next
  case (Cons a A)
  from Cons.prems have np: "\<not> prefix FENCE ((a # A) @ B)"
    using fence_not_across by simp
  from Cons.prems(1) have s: "\<not> sublist FENCE A" by (simp add: sublist_Cons_right)
  from Cons.prems(2) have l: "A = [] \<or> last A \<noteq> 96" by auto
  have "remove_all FENCE ((a # A) @ B) = a # remove_all FENCE (A @ B)"
    using np by simp
  with Cons.IH [OF s l] show ?case by simp
qed

lemma remove_fence_json_keep:
  "\<not> sublist FENCE A \<Longrightarrow> A = [] \<or> last A \<noteq> 96 \<Longrightarrow>
   remove_all FENCE_JSON (A @ B) = A @ remove_all FENCE_JSON B"
proof (induction A)
  case Nil
  show ?case by simp
next
  case (Cons a A)
  from Cons.prems have "\<not> prefix FENCE ((a # A) @ B)"
    using fence_not_across by simp
  then have np: "\<not> prefix FENCE_JSON ((a # A) @ B)"
    using prefix_FENCE_JSON by blast
  from Cons.prems(1) have s: "\<not> sublist FENCE A" by (simp add: sublist_Cons_right)
  from Cons.prems(2) have l: "A = [] \<or> last A \<noteq> 96" by auto
  have "remove_all FENCE_JSON ((a # A) @ B) = a # remove_all FENCE_JSON (A @ B)"
    using np by simp
  with Cons.IH [OF s l] show ?case by simp
qed

lemma unfenced_keep:
  assumes "\<not> sublist FENCE A" "A = [] \<or> last A \<noteq> 96"
  shows "unfenced (A @ B) = A @ unfenced B"
  using remove_fence_json_keep [OF assms, of B] remove_fence_keep [OF assms]
  by (simp add: unfenced_def FENCE_JSON_def)

lemma set_FENCE_JSON: "set FENCE_JSON = {96, 106, 115, 111, 110}"
  by (auto simp: FENCE_JSON_eq)

lemma unfenced_append:
  assumes "B = x # B'" "x \<notin> {96, 106, 115, 111, 110}"
  shows "unfenced (A @ B) = unfenced A @ unfenced B"
    and "\<exists>Y. unfenced B = x # Y"
proof -
  have 1: "remove_all FENCE_JSON (A @ B) = remove_all FENCE_JSON A @ remove_all FENCE_JSON B"
    using assms by (intro remove_all_append) (simp add: set_FENCE_JSON)
  have 2: "remove_all FENCE_JSON B = x # remove_all FENCE_JSON B'"
    using assms by (simp add: FENCE_JSON_eq)
  then have 3: "remove_all FENCE (remove_all FENCE_JSON A @ remove_all FENCE_JSON B)
           = remove_all FENCE (remove_all FENCE_JSON A) @ remove_all FENCE (remove_all FENCE_JSON B)"
    using assms(2) by (intro remove_all_append) (simp add: set_FENCE)
  from 1 3 show "unfenced (A @ B) = unfenced A @ unfenced B"
    by (simp add: unfenced_def FENCE_JSON_def)
  have "remove_all FENCE (x # remove_all FENCE_JSON B') = x # remove_all FENCE (remove_all FENCE_JSON B')"
    using assms(2) by (simp add: FENCE_def)
  with 2 show "\<exists>Y. unfenced B = x # Y" by (simp add: unfenced_def FENCE_JSON_def)
qed

lemma set_unfenced: "set (unfenced s) \<subseteq> set s"
  unfolding unfenced_def using set_remove_all by (meson order_trans)

lemma trim_all_space: "list_all is_space s \<Longrightarrow> trim s = []"
proof -
  assume "list_all is_space s"
  then have d: "dropWhile is_space s = []" by (simp add: list_all_iff)
  show ?thesis unfolding trim_def d by simp
qed

lemma trim_spaces_around:
  assumes ws: "list_all is_space ws1" "list_all is_space ws2"
  shows "trim (ws1 @ s @ ws2) = trim s"
proof -
  have d: "dropWhile is_space (ws1 @ s @ ws2) = dropWhile is_space (s @ ws2)"
    using ws(1) by (simp add: dropWhile_append2 list_all_iff)
  show ?thesis
  proof (cases "list_all is_space s")
    case True
    with ws(2) have "list_all is_space (s @ ws2)" by simp
    then have e: "dropWhile is_space (s @ ws2) = []"
      by (simp add: list_all_iff)
    have "trim (ws1 @ s @ ws2) = []" unfolding trim_def d e by simp
    with True show ?thesis by (simp add: trim_all_space)
  next
    case False
    then obtain x where "x \<in> set s" "\<not> is_space x" by (auto simp: list_all_iff)
    then have "dropWhile is_space (s @ ws2) = dropWhile is_space s @ ws2"
      by (rule dropWhile_append1)
    with d have "rev (dropWhile is_space (ws1 @ s @ ws2))
                 = rev ws2 @ rev (dropWhile is_space s)" by simp
    moreover have "dropWhile is_space (rev ws2 @ rev (dropWhile is_space s))
                   = dropWhile is_space (rev (dropWhile is_space s))"
      using ws(2) by (simp add: dropWhile_append list_all_iff)
    ultimately show ?thesis by (simp add: trim_def)
  qed
qed

lemma rtrim_split:
  assumes "\<not> P x"
  shows "\<exists>B'. rev (dropWhile P (rev (M @ x # B))) = M @ x # B'"
proof (cases "\<forall>y \<in> set (rev B). P y")
  case True
  then have "dropWhile P (rev B @ x # rev M) = dropWhile P (x # rev M)"
    by (simp add: dropWhile_append)
  with assms have "rev (dropWhile P (rev (M @ x # B))) = M @ x # []" by simp
  then show ?thesis by blast
next
  case False
  then obtain y where "y \<in> set (rev B)" "\<not> P y" by blast
  then have "dropWhile P (rev B @ x # rev M) = dropWhile P (rev B) @ x # rev M"
    by (rule dropWhile_append1)
  then have "rev (dropWhile P (rev (M @ x # B))) = M @ x # rev (dropWhile P (rev B))" by simp
  then show ?thesis by blast
qed

lemma trim_prose:
  assumes d: "dropWhile is_space A = c # A'" and x: "\<not> is_space x"
  shows "\<exists>Z. trim (A @ x # B) = c # Z \<and> x \<in> set Z"
proof -
  from d have "c \<in> set A" using set_dropWhileD [of c is_space A] by simp
  moreover from d have "\<not> is_space c" using hd_dropWhile [of is_space A] by auto
  ultimately have "dropWhile is_space (A @ x # B) = dropWhile is_space A @ x # B"
    by (rule dropWhile_append1)
  with d have e: "dropWhile is_space (A @ x # B) = (c # A') @ x # B" by simp
  from rtrim_split [where P = is_space and x = x and M = "c # A'" and B = B, OF x] obtain B' where
    "rev (dropWhile is_space (rev ((c # A') @ x # B))) = (c # A') @ x # B'" by blast
  with e have "trim (A @ x # B) = c # (A' @ x # B')" by (simp add: trim_def)
  then show ?thesis by auto
qed

lemma trim_core:
  assumes ws: "list_all is_space ws" and j: "j \<noteq> []" "\<not> is_space (hd j)" "\<not> is_space (last j)"
  shows "trim (ws @ j @ Q) = j @ rev (dropWhile is_space (rev Q))"
proof -
  from j(1) obtain c cs where c: "j = c # cs" by (cases j) auto
  have "dropWhile is_space (ws @ j @ Q) = dropWhile is_space (j @ Q)"
    using ws by (simp add: dropWhile_append2 list_all_iff)
  also have "\<dots> = j @ Q" using c j(2) by simp
  finally have d: "dropWhile is_space (ws @ j @ Q) = j @ Q" .
  have l: "dropWhile is_space (rev j) = rev j"
    using j(1,3) by (metis dropWhile_eq_self_iff hd_rev)
  have "dropWhile is_space (rev Q @ rev j) = dropWhile is_space (rev Q) @ rev j"
  proof (cases "\<forall>y \<in> set (rev Q). is_space y")
    case True
    then have "dropWhile is_space (rev Q @ rev j) = dropWhile is_space (rev j)"
      by (simp add: dropWhile_append)
    moreover from True have "dropWhile is_space (rev Q) = []" by simp
    ultimately show ?thesis using l by simp
  next
    case False
    then obtain y where "y \<in> set (rev Q)" "\<not> is_space y" by blast
    then show ?thesis by (rule dropWhile_append1)
  qed
  with d show ?thesis by (simp add: trim_def)
qed

subsection \<open>What the response parser recovers\<close>

lemma parseJsonResponse_stages:
  "parseJsonResponse text =
     (case json_parse (trim (unfenced text)) of
        Some v \<Rightarrow> Inr v
      | None \<Rightarrow>
          (case first_structure text of
             Some m \<Rightarrow> (case json_parse m of Some v \<Rightarrow> Inr v | None \<Rightarrow> Inl (ExtractedInvalid m))
           | None \<Rightarrow> Inl (NoStructure (take 100 text))))"
  by (simp add: parseJsonResponse_def unfenced_def)

lemma unfenced_no_fence: "\<not> sublist FENCE A \<Longrightarrow> unfenced A = A"
  using remove_all_no_fence [of A] by (simp add: unfenced_def FENCE_JSON_def)

lemma unfenced_fence_json_head: "unfenced (FENCE @ js ''json'' @ X) = unfenced X"
  using remove_fence_json_head [of X] by (simp add: unfenced_def FENCE_JSON_def)

lemma parseJsonResponse_fenced:
  assumes j: "json_parse j = Some v" "\<not> sublist FENCE j"
    and ws: "list_all is_space ws1" "list_all is_space ws2"
  shows "parseJsonResponse (ws1 @ j @ ws2) = Inr v"
    and "parseJsonResponse (FENCE @ js ''json'' @ ws1 @ j @ ws2 @ FENCE) = Inr v"
    and "parseJsonResponse (FENCE @ ws1 @ j @ ws2 @ FENCE) = Inr v"
proof -
  let ?A = "ws1 @ j @ ws2"
  have nf: "\<not> sublist FENCE ?A" using wrapped_body(1) [OF j ws] .
  have nl: "?A = [] \<or> last ?A \<noteq> 96" using wrapped_body(2) [OF j ws] by simp
  have t: "trim ?A = trim j" using ws by (rule trim_spaces_around)
  have p: "json_parse (trim ?A) = Some v" using json_parse_trim [OF j(1)] t by simp
  have uA: "unfenced ?A = ?A" using nf by (rule unfenced_no_fence)
  have uF: "unfenced FENCE = []" by (simp add: unfenced_def FENCE_def js_def)
  have uAF: "unfenced (?A @ FENCE) = ?A" using unfenced_keep [OF nf nl, of FENCE] uF by simp
  show "parseJsonResponse (ws1 @ j @ ws2) = Inr v"
    using p uA by (simp add: parseJsonResponse_stages)
  have "unfenced (FENCE @ js ''json'' @ ?A @ FENCE) = ?A"
    using uAF by (simp only: unfenced_fence_json_head)
  with p have "parseJsonResponse (FENCE @ js ''json'' @ ?A @ FENCE) = Inr v"
    by (simp add: parseJsonResponse_stages)
  then show "parseJsonResponse (FENCE @ js ''json'' @ ws1 @ j @ ws2 @ FENCE) = Inr v" by simp
  from wrapped_body(3) [OF j ws] obtain a A where
    a: "?A = a # A" "a \<noteq> 96" "a \<noteq> 106" by blast
  have "remove_all FENCE_JSON (FENCE @ a # (A @ FENCE)) = FENCE @ a # remove_all FENCE_JSON (A @ FENCE)"
    using a(2,3) by (rule remove_fence_json_plain_head)
  moreover have "a # remove_all FENCE_JSON (A @ FENCE) = remove_all FENCE_JSON ((a # A) @ FENCE)"
    using a(2) by (simp add: FENCE_JSON_eq)
  moreover have "remove_all FENCE_JSON ((a # A) @ FENCE) = (a # A) @ remove_all FENCE_JSON FENCE"
    using nf nl a(1) remove_fence_json_keep by metis
  moreover have "remove_all FENCE_JSON FENCE = FENCE" by (simp add: FENCE_JSON_eq FENCE_def)
  ultimately have "remove_all FENCE_JSON (FENCE @ ?A @ FENCE) = FENCE @ ?A @ FENCE"
    using a(1) by (metis append_Cons append_assoc)
  moreover have "remove_all FENCE (FENCE @ ?A @ FENCE) = ?A"
    using remove_fence_keep [OF nf nl, of FENCE] by (simp add: remove_fence_head FENCE_def)
  ultimately have "unfenced (FENCE @ ?A @ FENCE) = ?A"
    by (simp add: unfenced_def FENCE_JSON_def)
  with p have "parseJsonResponse (FENCE @ ?A @ FENCE) = Inr v"
    by (simp add: parseJsonResponse_stages)
  then show "parseJsonResponse (FENCE @ ws1 @ j @ ws2 @ FENCE) = Inr v" by simp
qed

lemma first_structure_in_prose:
  assumes shape: "j = 123 # mid @ [125] \<and> 125 \<notin> set post \<or> j = 91 # mid @ [93] \<and> 93 \<notin> set post"
    and pre: "123 \<notin> set pre" "91 \<notin> set pre"
  shows "first_structure (pre @ j @ post) = Some j"
proof -
  have "first_structure (pre @ j @ post) = first_structure (j @ post)"
    using pre by (rule first_structure_skip)
  also have "\<dots> = Some j"
    using shape first_structure_object [of post mid] first_structure_array [of post mid]
    by auto
  finally show ?thesis .
qed

lemma parseJsonResponse_in_prose_iff:
  assumes j: "json_parse j = Some v"
    and shape: "j = 123 # mid @ [125] \<and> 125 \<notin> set post \<or> j = 91 # mid @ [93] \<and> 93 \<notin> set post"
    and pre: "123 \<notin> set pre" "91 \<notin> set pre"
  shows "parseJsonResponse (pre @ j @ post) = Inr v
         \<longleftrightarrow> (\<forall>v'. json_parse (trim (unfenced (pre @ j @ post))) = Some v' \<longrightarrow> v' = v)"
  using first_structure_in_prose [OF shape pre] j
  by (auto simp: parseJsonResponse_stages split: option.splits)

lemma parseJsonResponse_in_prose:
  assumes j: "json_parse j = Some v"
    and shape: "j = 123 # mid @ [125] \<and> 125 \<notin> set post \<or> j = 91 # mid @ [93] \<and> 93 \<notin> set post"
    and pre: "123 \<notin> set pre" "91 \<notin> set pre"
    and fence: "list_all is_space (unfenced pre) \<longrightarrow> \<not> sublist FENCE j"
  shows "parseJsonResponse (pre @ j @ post) = Inr v
         \<or> (\<exists>s r. dropWhile is_space (unfenced pre) = 34 # r
                \<and> parseJsonResponse (pre @ j @ post) = Inr (JString s))"
proof -
  let ?text = "pre @ j @ post"
  have fs: "first_structure ?text = Some j" using shape pre by (rule first_structure_in_prose)
  have stage2: "parseJsonResponse ?text = Inr v" if "json_parse (trim (unfenced ?text)) = None"
    using that fs j by (simp add: parseJsonResponse_stages)
  from shape obtain opn rest where jr: "j = opn # rest" and opn: "opn = 123 \<or> opn = 91"
    and lst: "last j = 125 \<or> last j = 93"
    by auto
  have osp: "\<not> is_space opn" using opn by (auto simp: is_space_def)
  have lsp: "\<not> is_space (last j)" using lst by (auto simp: is_space_def)
  have ldg: "\<not> is_digit (last j)" using lst by (auto simp: is_digit_def)
  have l96: "last j \<noteq> 96" using lst by auto
  have B: "j @ post = opn # (rest @ post)" using jr by simp
  have o5: "opn \<notin> {96, 106, 115, 111, 110}" using opn by auto
  have u: "unfenced (pre @ j @ post) = unfenced pre @ unfenced (j @ post)"
    using B o5 by (rule unfenced_append(1))
  from unfenced_append(2) [OF B o5] obtain Y where y: "unfenced (j @ post) = opn # Y" by blast
  show ?thesis
  proof (cases "dropWhile is_space (unfenced pre)")
    case Nil
    then have sp: "list_all is_space (unfenced pre)" by (simp add: list_all_iff)
    with fence have nf: "\<not> sublist FENCE j" by simp
    have "unfenced (j @ post) = j @ unfenced post"
      using nf l96 by (intro unfenced_keep) simp_all
    with u have "unfenced ?text = unfenced pre @ j @ unfenced post" by simp
    moreover have "trim (unfenced pre @ j @ unfenced post)
                   = j @ rev (dropWhile is_space (rev (unfenced post)))"
      using sp _ _ lsp by (rule trim_core) (simp_all add: jr osp)
    ultimately have c: "trim (unfenced ?text) = j @ rev (dropWhile is_space (rev (unfenced post)))"
      by simp
    show ?thesis
    proof (cases "json_parse (trim (unfenced ?text))")
      case None
      from stage2 [OF None] show ?thesis by simp
    next
      case (Some v')
      with c have "json_parse (j @ rev (dropWhile is_space (rev (unfenced post)))) = Some v'"
        by simp
      from json_parse_append [OF j ldg this] have "v' = v" .
      with Some have "parseJsonResponse ?text = Inr v" by (simp add: parseJsonResponse_stages)
      then show ?thesis by simp
    qed
  next
    case (Cons c cp)
    from trim_prose [OF Cons osp, of Y] obtain Z where
      z: "trim (unfenced pre @ opn # Y) = c # Z" "opn \<in> set Z" by blast
    with u y have t: "trim (unfenced ?text) = c # Z" by simp
    have "c \<in> set (unfenced pre)" using Cons set_dropWhileD [of c is_space "unfenced pre"] by simp
    with set_unfenced [of pre] have cpre: "c \<in> set pre" by blast
    with pre have cb: "c \<noteq> 123" "c \<noteq> 91" by auto
    have "\<not> is_space c" using Cons hd_dropWhile [of is_space "unfenced pre"] by auto
    then have "\<not> is_json_ws c" using json_ws_space by blast
    then have d: "dropWhile is_json_ws (c # Z) = c # Z" by simp
    have br: "123 \<in> set Z \<or> 91 \<in> set Z" using z(2) opn by auto
    show ?thesis
    proof (cases "json_parse (trim (unfenced ?text))")
      case None
      from stage2 [OF None] show ?thesis by simp
    next
      case (Some v')
      have c34: "c = 34"
      proof (rule ccontr)
        assume "c \<noteq> 34"
        from json_parse_prose_start [OF d cb this br] Some t show False by simp
      qed
      from Some t have "json_parse (c # Z) = Some v'" by simp
      with d c34 obtain str where "v' = JString str"
        using json_parse_quote_start [of "c # Z" Z v'] by auto
      with Some have "parseJsonResponse ?text = Inr (JString str)"
        by (simp add: parseJsonResponse_stages)
      with Cons c34 show ?thesis by blast
    qed
  qed
qed

lemma first_structure_no_bracket:
  "123 \<notin> set s \<Longrightarrow> 91 \<notin> set s \<Longrightarrow> first_structure s = None"
  by (induction s) auto


text \<open>
  C1 (as amended). The call returns a value \<open>v\<close> exactly when the text, with every fence
  marker removed and trimmed, is a JSON text with the value \<open>v\<close>, or is not a JSON text while
  the bracketed part of the raw text (from the first opening bracket that has its closing
  bracket behind it to the last such closing bracket) is a JSON text with the value \<open>v\<close>.
  In particular: a JSON text \<open>j\<close> that contains no fence marker (three backticks in a row)
  is parsed to the value of \<open>j\<close> when it stands alone and when it is wrapped in fence markers
  (opening marker with or without the tag \<^verbatim>\<open>json\<close>), with any white space around it. An
  object or array text \<open>j\<close> inside prose, where the prose before it contains no opening brace
  or bracket and the prose behind it does not contain the closing bracket of \<open>j\<close>, is the
  bracketed part of the text, and the call returns the value of \<open>j\<close> exactly when the cleaned
  text is not a JSON text with another value; this is so whenever \<open>j\<close> contains no fence
  marker or the prose before it has, outside fence markers, a character that is not white
  space, with one exception: when that prose starts with a double quote and the cleaned
  text as a whole is a JSON string, that string is returned. When the cleaned text does not
  parse and the text has no bracketed part (as when it has no opening brace or bracket at
  all), the call fails with the error that carries the first 100 characters of the text;
  when the bracketed part does not parse it fails with the other error, which carries the
  engine's description of that failure; and it fails in no other way.
\<close>

theorem parseJsonResponse_recovery:
  "(parseJsonResponse text = Inr v \<longleftrightarrow>
      json_parse (trim (unfenced text)) = Some v
      \<or> (json_parse (trim (unfenced text)) = None
         \<and> (\<exists>m. first_structure text = Some m \<and> json_parse m = Some v)))
   \<and> (json_parse j = Some v \<and> \<not> sublist FENCE j
      \<and> list_all is_space ws1 \<and> list_all is_space ws2
    \<longrightarrow> parseJsonResponse (ws1 @ j @ ws2) = Inr v
        \<and> parseJsonResponse (FENCE @ js ''json'' @ ws1 @ j @ ws2 @ FENCE) = Inr v
        \<and> parseJsonResponse (FENCE @ ws1 @ j @ ws2 @ FENCE) = Inr v)
   \<and> (json_parse j = Some v
      \<and> (j = 123 # mid @ [125] \<and> 125 \<notin> set post \<or> j = 91 # mid @ [93] \<and> 93 \<notin> set post)
      \<and> 123 \<notin> set pre \<and> 91 \<notin> set pre
    \<longrightarrow> first_structure (pre @ j @ post) = Some j
        \<and> (parseJsonResponse (pre @ j @ post) = Inr v
             \<longleftrightarrow> (\<forall>v'. json_parse (trim (unfenced (pre @ j @ post))) = Some v' \<longrightarrow> v' = v))
        \<and> ((list_all is_space (unfenced pre) \<longrightarrow> \<not> sublist FENCE j)
            \<longrightarrow> parseJsonResponse (pre @ j @ post) = Inr v
                \<or> (\<exists>s r. dropWhile is_space (unfenced pre) = 34 # r
                       \<and> parseJsonResponse (pre @ j @ post) = Inr (JString s))))
   \<and> (json_parse (trim (unfenced text)) = None
    \<longrightarrow> (first_structure text = None
          \<longrightarrow> parseJsonResponse text = Inl (NoStructure (take 100 text))
              \<and> length (take 100 text) \<le> 100)
        \<and> (\<forall>m. first_structure text = Some m \<and> json_parse m = None
              \<longrightarrow> parseJsonResponse text = Inl (ExtractedInvalid m)))
   \<and> (123 \<notin> set text \<and> 91 \<notin> set text \<longrightarrow> first_structure text = None)
   \<and> (\<forall>e. parseJsonResponse text = Inl e
          \<longrightarrow> json_parse (trim (unfenced text)) = None
              \<and> (first_structure text = None \<and> e = NoStructure (take 100 text)
                 \<or> (\<exists>m. first_structure text = Some m \<and> json_parse m = None
                         \<and> e = ExtractedInvalid m)))"
  apply (intro conjI)
  subgoal
    by (auto simp: parseJsonResponse_stages split: option.splits)
  subgoal
    using parseJsonResponse_fenced [of j v ws1 ws2] by blast
  subgoal
    using first_structure_in_prose [of j mid post pre]
      parseJsonResponse_in_prose_iff [of j v mid post pre]
      parseJsonResponse_in_prose [of j v mid post pre]
    by blast
  subgoal
    by (auto simp: parseJsonResponse_stages split: option.splits)
  subgoal
    using first_structure_no_bracket [of "text"] by blast
  subgoal
    by (auto simp: parseJsonResponse_stages split: option.splits)
  done

theorem parseJsonResponse_recovery_witness:
  "json_parse (js '' {\"a\":\"`\"}'') = Some (JObject [(js ''a'', JString [96])])
   \<and> \<not> sublist FENCE (js '' {\"a\":\"`\"}'') \<and> list_all is_space [10]
   \<and> parseJsonResponse ([10] @ js '' {\"a\":\"`\"}'' @ [10]) = Inr (JObject [(js ''a'', JString [96])])
   \<and> parseJsonResponse (FENCE @ js ''json'' @ [10] @ js '' {\"a\":\"`\"}'' @ [10] @ FENCE)
       = Inr (JObject [(js ''a'', JString [96])])
   \<and> parseJsonResponse (FENCE @ [10] @ js '' {\"a\":\"`\"}'' @ [10] @ FENCE)
       = Inr (JObject [(js ''a'', JString [96])])
   \<and> json_parse (js ''{\"a\":1}'') = Some (JObject [(js ''a'', JNumber False 1 0)])
   \<and> parseJsonResponse (js ''the result: '' @ js ''{\"a\":1}'' @ js '' ok'')
       = Inr (JObject [(js ''a'', JNumber False 1 0)])
   \<and> parseJsonResponse ([] @ js ''{\"a\":1}'' @ js '' ok'')
       = Inr (JObject [(js ''a'', JNumber False 1 0)])
   \<and> json_parse (trim (unfenced (js ''no json here''))) = None
   \<and> first_structure (js ''no json here'') = None
   \<and> parseJsonResponse (js ''no json here'') = Inl (NoStructure (js ''no json here''))"
proof -
  let ?j = "js '' {\"a\":\"`\"}''"
  let ?v = "JObject [(js ''a'', JString [96])]"
  let ?k = "js ''{\"a\":1}''"
  let ?u = "JObject [(js ''a'', JNumber False 1 0)]"
  have h1: "json_parse ?j = Some ?v" by code_simp
  have h2: "\<not> sublist FENCE ?j" by (simp add: FENCE_def js_def sublist_Cons_right)
  have h4: "list_all is_space [10]" by (simp add: is_space_def)
  note t = parseJsonResponse_recovery [of "js ''no json here''" ?v ?j "[10]" "[10]"]
  from t h1 h2 h4
  have a0: "parseJsonResponse ([10] @ ?j @ [10]) = Inr ?v"
    and a1: "parseJsonResponse (FENCE @ js ''json'' @ [10] @ ?j @ [10] @ FENCE) = Inr ?v"
    and a2: "parseJsonResponse (FENCE @ [10] @ ?j @ [10] @ FENCE) = Inr ?v"
    by blast+
  have k1: "json_parse ?k = Some ?u" by code_simp
  have k2: "\<not> sublist FENCE ?k" by (simp add: FENCE_def js_def sublist_Cons_right)
  have k3: "?k = 123 # js ''\"a\":1'' @ [125]" by (simp add: js_def)
  have k4: "125 \<notin> set (js '' ok'')" by (simp add: js_def)
  have p1: "123 \<notin> set (js ''the result: '')" "91 \<notin> set (js ''the result: '')"
    by (simp_all add: js_def)
  have p0: "unfenced (js ''the result: '') = js ''the result: ''"
    by (simp add: unfenced_def FENCE_def js_def)
  have "dropWhile is_space (js ''the result: '') = js ''the result: ''"
    by (simp add: js_def is_space_def)
  with p0 have p2: "dropWhile is_space (unfenced (js ''the result: '')) = js ''the result: ''"
    by simp
  have "\<not> list_all is_space (js ''the result: '')" by (simp add: js_def is_space_def)
  with p0 have p3: "\<not> list_all is_space (unfenced (js ''the result: ''))" by simp
  have p4: "\<not> (\<exists>s r. dropWhile is_space (unfenced (js ''the result: '')) = 34 # r
                \<and> parseJsonResponse (js ''the result: '' @ ?k @ js '' ok'') = Inr (JString s))"
    using p2 by (simp add: js_def)
  note t2 = parseJsonResponse_recovery [of "[]" ?u ?k "[]" "[]" "js ''\"a\":1''" "js '' ok''"
              "js ''the result: ''"]
  from t2 k1 k3 k4 p1 p3
  have "parseJsonResponse (js ''the result: '' @ ?k @ js '' ok'') = Inr ?u
        \<or> (\<exists>s r. dropWhile is_space (unfenced (js ''the result: '')) = 34 # r
               \<and> parseJsonResponse (js ''the result: '' @ ?k @ js '' ok'') = Inr (JString s))"
    by blast
  with p4 have a3: "parseJsonResponse (js ''the result: '' @ ?k @ js '' ok'') = Inr ?u" by blast
  have q1: "unfenced [] = []" by (simp add: unfenced_def)
  have q4: "\<not> (\<exists>s r. dropWhile is_space (unfenced []) = 34 # r
                \<and> parseJsonResponse ([] @ ?k @ js '' ok'') = Inr (JString s))"
    using q1 by simp
  note t3 = parseJsonResponse_recovery [of "[]" ?u ?k "[]" "[]" "js ''\"a\":1''" "js '' ok''" "[]"]
  have e1: "123 \<notin> set ([] :: jsstring)" "91 \<notin> set ([] :: jsstring)" by simp_all
  have e2: "list_all is_space (unfenced []) \<longrightarrow> \<not> sublist FENCE ?k" using k2 by blast
  from t3 k1 k3 k4 e1 e2
  have "parseJsonResponse ([] @ ?k @ js '' ok'') = Inr ?u
        \<or> (\<exists>s r. dropWhile is_space (unfenced []) = 34 # r
               \<and> parseJsonResponse ([] @ ?k @ js '' ok'') = Inr (JString s))"
    by blast
  with q4 have a4: "parseJsonResponse ([] @ ?k @ js '' ok'') = Inr ?u" by blast
  have "trim (unfenced (js ''no json here'')) = js ''no json here''"
    by (simp add: unfenced_def trim_def js_def is_space_def FENCE_def)
  moreover have "json_parse (js ''no json here'') = None" by code_simp
  ultimately have h8: "json_parse (trim (unfenced (js ''no json here''))) = None" by simp
  have n1: "123 \<notin> set (js ''no json here'')" "91 \<notin> set (js ''no json here'')"
    by (simp_all add: js_def)
  from t n1 have h9: "first_structure (js ''no json here'') = None" by blast
  have h10: "take 100 (js ''no json here'') = js ''no json here''" by (simp add: js_def)
  from t h8 h9
  have "parseJsonResponse (js ''no json here'') = Inl (NoStructure (take 100 (js ''no json here'')))"
    by blast
  with h10
  have a5: "parseJsonResponse (js ''no json here'') = Inl (NoStructure (js ''no json here''))"
    by simp
  show ?thesis
    apply (intro conjI)
    subgoal by (rule h1)
    subgoal by (rule h2)
    subgoal by (rule h4)
    subgoal by (rule a0)
    subgoal by (rule a1)
    subgoal by (rule a2)
    subgoal by (rule k1)
    subgoal by (rule a3)
    subgoal by (rule a4)
    subgoal by (rule h8)
    subgoal by (rule h9)
    subgoal by (rule a5)
    done
qed

text \<open>
  The claim as stated fails: a valid JSON text whose string value is a fence marker is
  parsed to a different value, an object surrounded by prose that contains a brace is not
  recovered at all, and an object between two double quotes is returned as a string.
\<close>

theorem parseJsonResponse_counterexample:
  "json_parse (js ''{\"a\":\"```\"}'') = Some (JObject [(js ''a'', JString (js ''```''))])
   \<and> parseJsonResponse (js ''{\"a\":\"```\"}'') = Inr (JObject [(js ''a'', JString [])])
   \<and> json_parse (js ''{\"a\":1}'') = Some (JObject [(js ''a'', JNumber False 1 0)])
   \<and> parseJsonResponse (js ''Note {x}: {\"a\":1}'') = Inl (ExtractedInvalid (js ''{x}: {\"a\":1}''))
   \<and> json_parse (js ''{}'') = Some (JObject [])
   \<and> parseJsonResponse (js ''\"'' @ js ''{}'' @ js ''\"'') = Inr (JString (js ''{}''))"
proof -
  have c1: "trim (remove_all FENCE (remove_all (FENCE @ js ''json'') (js ''{\"a\":\"```\"}'')))
            = js ''{\"a\":\"\"}''"
    by (simp add: trim_def js_def is_space_def FENCE_def)
  have p1: "json_parse (js ''{\"a\":\"\"}'') = Some (JObject [(js ''a'', JString [])])"
    by code_simp
  have a: "parseJsonResponse (js ''{\"a\":\"```\"}'') = Inr (JObject [(js ''a'', JString [])])"
    using c1 p1 by (simp add: parseJsonResponse_def)
  have c2: "trim (remove_all FENCE (remove_all (FENCE @ js ''json'') (js ''Note {x}: {\"a\":1}'')))
            = js ''Note {x}: {\"a\":1}''"
    by (simp add: trim_def js_def is_space_def FENCE_def)
  have p2: "json_parse (js ''Note {x}: {\"a\":1}'') = None" by code_simp
  have f2: "first_structure (js ''Note {x}: {\"a\":1}'') = Some (js ''{x}: {\"a\":1}'')"
    by (simp add: js_def up_to_last_def)
  have p3: "json_parse (js ''{x}: {\"a\":1}'') = None" by code_simp
  have b: "parseJsonResponse (js ''Note {x}: {\"a\":1}'')
           = Inl (ExtractedInvalid (js ''{x}: {\"a\":1}''))"
    using c2 p2 f2 p3 by (simp add: parseJsonResponse_def)
  have d1: "json_parse (js ''{\"a\":\"```\"}'') = Some (JObject [(js ''a'', JString (js ''```''))])"
    by code_simp
  have d2: "json_parse (js ''{\"a\":1}'') = Some (JObject [(js ''a'', JNumber False 1 0)])"
    by code_simp
  have d3: "json_parse (js ''{}'') = Some (JObject [])" by code_simp
  have c3: "trim (remove_all FENCE (remove_all (FENCE @ js ''json'') (js ''\"'' @ js ''{}'' @ js ''\"'')))
            = js ''\"{}\"''"
    by (simp add: trim_def js_def is_space_def FENCE_def)
  have p4: "json_parse (js ''\"{}\"'') = Some (JString (js ''{}''))" by code_simp
  have e: "parseJsonResponse (js ''\"'' @ js ''{}'' @ js ''\"'') = Inr (JString (js ''{}''))"
    using c3 p4 by (simp add: parseJsonResponse_def)
  show ?thesis using a b d1 d2 d3 e by simp
qed

section \<open>Errors, effects and \<^verbatim>\<open>withRetry\<close>\<close>

text \<open>
  A thrown error object, as far as the program looks at it: its \<^verbatim>\<open>status\<close> (set by the
  AI SDK on an HTTP error, undefined on an \<^verbatim>\<open>Error\<close> made by the program or the engine) and
  its \<^verbatim>\<open>message\<close>.
\<close>

record js_error =
  status :: "nat option"
  message :: "jsstring option"

text \<open>
  The effects of the service are kept in one record threaded through the calls: the lines
  written to the console, the time asked of \<^verbatim>\<open>setTimeout\<close> in milliseconds, the number of
  calls made so far on each channel (a channel is one caller of the network: the key
  validation, the worker of one batch, or an instrumented operation under test), and the arguments \<^verbatim>\<open>onProgress\<close> was called with.
\<close>

datatype log =
    Warn nat nat js_error
  | ValidationFailed js_error
  | BatchFailed js_error

datatype channel = Validation | Worker nat | Test

record world =
  console :: "log list"
  clock :: nat
  calls :: "channel \<Rightarrow> nat"
  progress :: "json list"

type_synonym 'a io = "world \<Rightarrow> (js_error + 'a) \<times> world"

text \<open>
  \<^verbatim>\<open>error.status === 401 || error.status === 400 || error.message?.includes('API key')\<close>.
\<close>

definition non_retryable :: "js_error \<Rightarrow> bool" where
  "non_retryable error \<longleftrightarrow>
     status error = Some 401 \<or> status error = Some 400
     \<or> (case message error of None \<Rightarrow> False | Some m \<Rightarrow> sublist (js ''API key'') m)"

text \<open>
  \<^verbatim>\<open>withRetry(fn, retries, delay)\<close>. The warning written before a retry records the delay and
  the retries left; waiting adds the delay to the clock.
\<close>

function withRetry :: "'a io \<Rightarrow> nat \<Rightarrow> nat \<Rightarrow> 'a io" where
  "withRetry fn retries delay w =
     (case fn w of
        (Inr v, w') \<Rightarrow> (Inr v, w')
      | (Inl error, w') \<Rightarrow>
          if retries = 0 then (Inl error, w')
          else if non_retryable error then (Inl error, w')
          else withRetry fn (retries - 1) (delay * 2)
                 (w'\<lparr>console := console w' @ [Warn delay retries error],
                     clock := clock w' + delay\<rparr>))"
  by pat_completeness auto
termination
  by (relation "measure (\<lambda>(fn, retries, delay, w). retries)") auto

text \<open>The default arguments \<^verbatim>\<open>retries = 3\<close>, \<^verbatim>\<open>delay = 1000\<close>.\<close>

definition withRetry_default :: "'a io \<Rightarrow> 'a io" where
  "withRetry_default fn = withRetry fn 3 1000"

declare withRetry.simps [simp del]

text \<open>
  An operation that counts its invocations on a channel and whose \<open>k\<close>-th invocation has the
  outcome \<open>outcomes k\<close>: the instrumented operation of the retry tests.
\<close>

definition scripted :: "channel \<Rightarrow> (nat \<Rightarrow> js_error + 'a) \<Rightarrow> 'a io" where
  "scripted ch outcomes w = (outcomes (calls w ch), w\<lparr>calls := (calls w)(ch := calls w ch + 1)\<rparr>)"

subsection \<open>Properties of \<^verbatim>\<open>withRetry\<close>\<close>

lemma withRetry_success:
  "fn w = (Inr v, w') \<Longrightarrow> withRetry fn retries delay w = (Inr v, w')"
  by (subst withRetry.simps) simp

lemma withRetry_fatal:
  "fn w = (Inl e, w') \<Longrightarrow> non_retryable e \<or> retries = 0 \<Longrightarrow>
   withRetry fn retries delay w = (Inl e, w')"
  by (subst withRetry.simps) auto

lemma withRetry_again:
  "fn w = (Inl e, w') \<Longrightarrow> \<not> non_retryable e \<Longrightarrow> retries \<noteq> 0 \<Longrightarrow>
   withRetry fn retries delay w =
     withRetry fn (retries - 1) (delay * 2)
       (w'\<lparr>console := console w' @ [Warn delay retries e], clock := clock w' + delay\<rparr>)"
  by (subst withRetry.simps) simp

lemma scripted_calls [simp]:
  "calls (snd (scripted ch outcomes w)) ch = calls w ch + 1"
  "fst (scripted ch outcomes w) = outcomes (calls w ch)"
  by (simp_all add: scripted_def)

text \<open>
  C3. With the default arguments, an operation whose first two invocations fail with errors
  that are not classified non-retryable and whose third invocation succeeds returns the value
  of the third invocation after exactly three invocations (and waits of 1000 and 2000 ms);
  an operation that always fails with a non-retryable error (status 401 or 400, or a message
  that contains \<^verbatim>\<open>API key\<close>) has its first error re-raised after exactly one invocation, with
  no wait and no warning.
\<close>

theorem withRetry_counts:
  "(outcomes (calls w ch) = Inl e1 \<and> \<not> non_retryable e1
      \<and> outcomes (calls w ch + 1) = Inl e2 \<and> \<not> non_retryable e2
      \<and> outcomes (calls w ch + 2) = Inr v
    \<longrightarrow> fst (withRetry_default (scripted ch outcomes) w) = Inr v
        \<and> calls (snd (withRetry_default (scripted ch outcomes) w)) ch = calls w ch + 3
        \<and> clock (snd (withRetry_default (scripted ch outcomes) w)) = clock w + 3000)
   \<and> ((\<forall>k. \<exists>e. outcomes k = Inl e \<and> non_retryable e)
    \<longrightarrow> fst (withRetry_default (scripted ch outcomes) w) = outcomes (calls w ch)
        \<and> calls (snd (withRetry_default (scripted ch outcomes) w)) ch = calls w ch + 1
        \<and> clock (snd (withRetry_default (scripted ch outcomes) w)) = clock w
        \<and> console (snd (withRetry_default (scripted ch outcomes) w)) = console w)"
proof (intro conjI impI)
  assume a: "outcomes (calls w ch) = Inl e1 \<and> \<not> non_retryable e1
      \<and> outcomes (calls w ch + 1) = Inl e2 \<and> \<not> non_retryable e2
      \<and> outcomes (calls w ch + 2) = Inr v"
  let ?fn = "scripted ch outcomes"
  define w1 where "w1 = w\<lparr>calls := (calls w)(ch := calls w ch + 1)\<rparr>"
  define w1' where "w1' = w1\<lparr>console := console w1 @ [Warn 1000 3 e1], clock := clock w1 + 1000\<rparr>"
  define w2 where "w2 = w1'\<lparr>calls := (calls w1')(ch := calls w1' ch + 1)\<rparr>"
  define w2' where "w2' = w2\<lparr>console := console w2 @ [Warn 2000 2 e2], clock := clock w2 + 2000\<rparr>"
  define w3 where "w3 = w2'\<lparr>calls := (calls w2')(ch := calls w2' ch + 1)\<rparr>"
  have f1: "?fn w = (Inl e1, w1)" using a by (simp add: scripted_def w1_def)
  have c1: "calls w1' ch = calls w ch + 1" by (simp add: w1'_def w1_def)
  have f2: "?fn w1' = (Inl e2, w2)" using a c1 by (simp add: scripted_def w2_def)
  have c2: "calls w2' ch = calls w ch + 2" using c1 by (simp add: w2'_def w2_def)
  have f3: "?fn w2' = (Inr v, w3)" using a c2 by (simp add: scripted_def w3_def)
  have "withRetry ?fn 3 1000 w = withRetry ?fn 2 2000 w1'"
    using withRetry_again [where fn = ?fn and w = w, OF f1, of 3 1000] a by (simp add: w1'_def)
  also have "\<dots> = withRetry ?fn 1 4000 w2'"
    using withRetry_again [where fn = ?fn and w = w1', OF f2, of 2 2000] a by (simp add: w2'_def)
  also have "\<dots> = (Inr v, w3)"
    using withRetry_success [where fn = ?fn and w = w2', OF f3] .
  finally have r: "withRetry_default ?fn w = (Inr v, w3)" by (simp add: withRetry_default_def)
  have "calls w3 ch = calls w ch + 3" using c2 by (simp add: w3_def)
  moreover have "clock w3 = clock w + 3000"
    by (simp add: w3_def w2'_def w2_def w1'_def w1_def)
  ultimately show "fst (withRetry_default ?fn w) = Inr v"
    "calls (snd (withRetry_default ?fn w)) ch = calls w ch + 3"
    "clock (snd (withRetry_default ?fn w)) = clock w + 3000"
    using r by simp_all
next
  assume a: "\<forall>k. \<exists>e. outcomes k = Inl e \<and> non_retryable e"
  let ?fn = "scripted ch outcomes"
  from a obtain e where e: "outcomes (calls w ch) = Inl e" "non_retryable e" by blast
  define w1 where "w1 = w\<lparr>calls := (calls w)(ch := calls w ch + 1)\<rparr>"
  have f1: "?fn w = (Inl e, w1)" using e by (simp add: scripted_def w1_def)
  have r: "withRetry_default ?fn w = (Inl e, w1)"
    unfolding withRetry_default_def using withRetry_fatal [where fn = ?fn and w = w, OF f1] e(2) by simp
  show "fst (withRetry_default ?fn w) = outcomes (calls w ch)"
    "calls (snd (withRetry_default ?fn w)) ch = calls w ch + 1"
    "clock (snd (withRetry_default ?fn w)) = clock w"
    "console (snd (withRetry_default ?fn w)) = console w"
    using r e by (simp_all add: w1_def)
qed

theorem withRetry_counts_witness:
  "\<not> non_retryable \<lparr>status = Some 503, message = Some (js ''busy'')\<rparr>
   \<and> fst (withRetry_default
          (scripted Test (\<lambda>k. if k < 2 then Inl \<lparr>status = Some 503, message = Some (js ''busy'')\<rparr>
                            else Inr (7::nat)))
          \<lparr>console = [], clock = 0, calls = (\<lambda>ch. 0), progress = []\<rparr>) = Inr 7
   \<and> calls (snd (withRetry_default
          (scripted Test (\<lambda>k. if k < 2 then Inl \<lparr>status = Some 503, message = Some (js ''busy'')\<rparr>
                            else Inr (7::nat)))
          \<lparr>console = [], clock = 0, calls = (\<lambda>ch. 0), progress = []\<rparr>))  Test = 3
   \<and> non_retryable \<lparr>status = None, message = Some (js ''Invalid API key'')\<rparr>
   \<and> fst (withRetry_default
          (scripted Test (\<lambda>k. Inl \<lparr>status = None, message = Some (js ''Invalid API key'')\<rparr>
                            :: js_error + nat))
          \<lparr>console = [], clock = 0, calls = (\<lambda>ch. 0), progress = []\<rparr>)
       = Inl \<lparr>status = None, message = Some (js ''Invalid API key'')\<rparr>
   \<and> calls (snd (withRetry_default
          (scripted Test (\<lambda>k. Inl \<lparr>status = None, message = Some (js ''Invalid API key'')\<rparr>
                            :: js_error + nat))
          \<lparr>console = [], clock = 0, calls = (\<lambda>ch. 0), progress = []\<rparr>)) Test = 1"
proof -
  let ?busy = "\<lparr>status = Some 503, message = Some (js ''busy'')\<rparr>"
  let ?bad = "\<lparr>status = None, message = Some (js ''Invalid API key'')\<rparr>"
  let ?w = "\<lparr>console = [], clock = 0, calls = (\<lambda>ch. 0), progress = []\<rparr>"
  let ?o1 = "\<lambda>k::nat. if k < 2 then Inl ?busy else Inr (7::nat)"
  let ?o2 = "\<lambda>k::nat. Inl ?bad :: js_error + nat"
  have h1: "\<not> non_retryable ?busy"
    by (simp add: non_retryable_def js_def sublist_Cons_right)
  have h2: "non_retryable ?bad"
  proof -
    have "js ''Invalid API key'' = js ''Invalid '' @ js ''API key'' @ []" by (simp add: js_def)
    then have "sublist (js ''API key'') (js ''Invalid API key'')"
      by (metis sublist_appendI)
    then show ?thesis by (simp add: non_retryable_def)
  qed
  have h3: "\<forall>k. \<exists>e. ?o2 k = Inl e \<and> non_retryable e" using h2 by simp
  from withRetry_counts [of ?o1 ?w Test ?busy ?busy 7] h1
  have a: "fst (withRetry_default (scripted Test ?o1) ?w) = Inr 7"
          "calls (snd (withRetry_default (scripted Test ?o1) ?w))  Test = 3"
    by simp_all
  from withRetry_counts [of ?o2 ?w Test] h3
  have b: "fst (withRetry_default (scripted Test ?o2) ?w) = Inl ?bad"
          "calls (snd (withRetry_default (scripted Test ?o2) ?w)) Test = 1"
    by simp_all
  show ?thesis using h1 h2 a b by simp
qed

section \<open>The providers and \<^verbatim>\<open>validateApiKey\<close>\<close>

record provider_config =
  url :: jsstring
  headers :: "(jsstring \<times> jsstring) list"

text \<open>\<^verbatim>\<open>getProviderConfig\<close>; the default case throws.\<close>

definition getProviderConfig :: "AiProvider \<Rightarrow> jsstring \<Rightarrow> js_error + provider_config" where
  "getProviderConfig provider apiKey =
     (case provider of
        OpenAI \<Rightarrow> Inr \<lparr>url = js ''https://api.openai.com/v1/chat/completions'',
                       headers = [(js ''Content-Type'', js ''application/json''),
                                  (js ''Authorization'', js ''Bearer '' @ apiKey)]\<rparr>
      | Anthropic \<Rightarrow> Inr \<lparr>url = js ''https://api.anthropic.com/v1/messages'',
                          headers = [(js ''Content-Type'', js ''application/json''),
                                     (js ''x-api-key'', apiKey),
                                     (js ''anthropic-version'', js ''2023-06-01'')]\<rparr>
      | OpenRouter \<Rightarrow> Inr \<lparr>url = js ''https://openrouter.ai/api/v1/chat/completions'',
                           headers = [(js ''Content-Type'', js ''application/json''),
                                      (js ''Authorization'', js ''Bearer '' @ apiKey),
                                      (js ''HTTP-Referer'', js ''https://html-snippet-ai.com''),
                                      (js ''X-Title'', js ''HTML Snippet AI'')]\<rparr>
      | Gemini \<Rightarrow> Inl \<lparr>status = None,
                       message = Some (js ''Unsupported provider config: gemini'')\<rparr>)"

text \<open>
  The network is the environment of the service. \<open>sdk_generateContent net ch k\<close> is the
  outcome of the \<open>k\<close>-th call of \<^verbatim>\<open>ai.models.generateContent\<close> on channel \<open>ch\<close>: the error
  thrown, or the \<^verbatim>\<open>text\<close> of the response, a string or \<^verbatim>\<open>undefined\<close> (\<open>None\<close>).
  \<open>fetch net ch k\<close> is the outcome of the \<open>k\<close>-th call
  of \<^verbatim>\<open>fetch\<close> on the channel: the error thrown (a transport failure), or the response with
  its status and body. The request sent (URL, headers, model and prompt) has no influence
  on the model: the outcomes are arbitrary.
\<close>

record http_response =
  resp_status :: nat
  resp_body :: jsstring

definition ok :: "http_response \<Rightarrow> bool" where
  "ok response \<longleftrightarrow> 200 \<le> resp_status response \<and> resp_status response \<le> 299"

record network =
  sdk_generateContent :: "channel \<Rightarrow> nat \<Rightarrow> js_error + jsstring option"
  fetch :: "channel \<Rightarrow> nat \<Rightarrow> js_error + http_response"

text \<open>The operation that \<^verbatim>\<open>validateApiKey\<close> hands to \<^verbatim>\<open>withRetry\<close>.\<close>

definition validate_attempt :: "network \<Rightarrow> AiProvider \<Rightarrow> jsstring \<Rightarrow> jsstring \<Rightarrow> bool io" where
  "validate_attempt net provider apiKey model w =
     (if provider = Gemini then
        (case scripted Validation (sdk_generateContent net Validation) w of
           (Inl e, w') \<Rightarrow> (Inl e, w')
         | (Inr response, w') \<Rightarrow> (Inr True, w'))
      else
        (case getProviderConfig provider apiKey of
           Inl e \<Rightarrow> (Inl e, w)
         | Inr config \<Rightarrow>
             (case scripted Validation (fetch net Validation) w of
                (Inl e, w') \<Rightarrow> (Inl e, w')
              | (Inr response, w') \<Rightarrow> (Inr (ok response), w'))))"

text \<open>
  \<^verbatim>\<open>validateApiKey\<close>. The result type can express a rejection, so that "never rejects" is a
  statement about the function and not about its type.
\<close>

definition validateApiKey :: "network \<Rightarrow> AiProvider \<Rightarrow> jsstring \<Rightarrow> jsstring \<Rightarrow> bool io" where
  "validateApiKey net provider apiKey model w =
     (if apiKey = [] then (Inr False, w)
      else
        (case withRetry_default (validate_attempt net provider apiKey model) w of
           (Inr b, w') \<Rightarrow> (Inr b, w')
         | (Inl error, w') \<Rightarrow>
             (Inr False, w'\<lparr>console := console w' @ [ValidationFailed error]\<rparr>)))"

subsection \<open>Properties of \<^verbatim>\<open>validateApiKey\<close>\<close>

lemma validateApiKey_total:
  "\<exists>b. fst (validateApiKey net provider apiKey model w) = Inr b"
  by (auto simp: validateApiKey_def split: prod.splits sum.splits)

lemma withRetry_always_failing:
  assumes "\<And>w. \<exists>e w'. fn w = (Inl e, w')"
  shows "\<exists>e w'. withRetry fn retries delay w = (Inl e, w')"
proof (induction retries arbitrary: delay w)
  case 0
  from assms obtain e w' where f: "fn w = (Inl e, w')" by blast
  have "withRetry fn 0 delay w = (Inl e, w')"
    using withRetry_fatal [where fn = fn and w = w, OF f] by simp
  then show ?case by blast
next
  case (Suc n)
  from assms obtain e w' where f: "fn w = (Inl e, w')" by blast
  show ?case
  proof (cases "non_retryable e")
    case True
    have "withRetry fn (Suc n) delay w = (Inl e, w')"
      using withRetry_fatal [where fn = fn and w = w, OF f] True by simp
    then show ?thesis by blast
  next
    case False
    have "withRetry fn (Suc n) delay w =
          withRetry fn n (delay * 2)
            (w'\<lparr>console := console w' @ [Warn delay (Suc n) e], clock := clock w' + delay\<rparr>)"
      using withRetry_again [where fn = fn and w = w, OF f False, of "Suc n" delay] by simp
    with Suc show ?thesis by simp
  qed
qed

lemma validateApiKey_transport_failure:
  assumes key: "apiKey \<noteq> []"
    and fail: "provider = Gemini \<longrightarrow> (\<forall>k. \<exists>e. sdk_generateContent net Validation k = Inl e)"
              "provider \<noteq> Gemini \<longrightarrow> (\<forall>k. \<exists>e. fetch net Validation k = Inl e)"
  shows "fst (validateApiKey net provider apiKey model w) = Inr False"
proof -
  have "\<exists>e w'. validate_attempt net provider apiKey model w = (Inl e, w')" for w
  proof (cases "provider = Gemini")
    case True
    with fail(1) obtain e where "sdk_generateContent net Validation (calls w Validation) = Inl e"
      by blast
    with True show ?thesis by (simp add: validate_attempt_def scripted_def)
  next
    case False
    with fail(2) obtain e where "fetch net Validation (calls w Validation) = Inl e"
      by blast
    with False show ?thesis
      by (cases provider) (simp_all add: validate_attempt_def scripted_def getProviderConfig_def)
  qed
  then obtain e w' where
    "withRetry_default (validate_attempt net provider apiKey model) w = (Inl e, w')"
    unfolding withRetry_default_def using withRetry_always_failing by metis
  with key show ?thesis by (simp add: validateApiKey_def)
qed

lemma validateApiKey_fetch_401:
  assumes key: "apiKey \<noteq> []" and p: "provider \<noteq> Gemini"
    and r: "fetch net Validation (calls w Validation) = Inr response" "resp_status response = 401"
  shows "fst (validateApiKey net provider apiKey model w) = Inr False"
    and "calls (snd (validateApiKey net provider apiKey model w)) Validation = calls w Validation + 1"
    and "clock (snd (validateApiKey net provider apiKey model w)) = clock w"
proof -
  let ?w1 = "w\<lparr>calls := (calls w)(Validation := calls w Validation + 1)\<rparr>"
  have nok: "\<not> ok response" using r(2) by (simp add: ok_def)
  have "validate_attempt net provider apiKey model w = (Inr False, ?w1)"
    using p r(1) nok
    by (cases provider) (simp_all add: validate_attempt_def scripted_def getProviderConfig_def)
  then have "withRetry_default (validate_attempt net provider apiKey model) w = (Inr False, ?w1)"
    unfolding withRetry_default_def by (rule withRetry_success)
  with key have v: "validateApiKey net provider apiKey model w = (Inr False, ?w1)"
    by (simp add: validateApiKey_def)
  show "fst (validateApiKey net provider apiKey model w) = Inr False"
    and "calls (snd (validateApiKey net provider apiKey model w)) Validation = calls w Validation + 1"
    and "clock (snd (validateApiKey net provider apiKey model w)) = clock w"
    by (simp_all add: v)
qed

lemma validateApiKey_sdk_401:
  assumes key: "apiKey \<noteq> []"
    and r: "sdk_generateContent net Validation (calls w Validation) = Inl e" "status e = Some 401"
  shows "fst (validateApiKey net Gemini apiKey model w) = Inr False"
    and "calls (snd (validateApiKey net Gemini apiKey model w)) Validation = calls w Validation + 1"
    and "clock (snd (validateApiKey net Gemini apiKey model w)) = clock w"
proof -
  let ?w1 = "w\<lparr>calls := (calls w)(Validation := calls w Validation + 1)\<rparr>"
  have nr: "non_retryable e" using r(2) by (simp add: non_retryable_def)
  have f: "validate_attempt net Gemini apiKey model w = (Inl e, ?w1)"
    using r(1) by (simp add: validate_attempt_def scripted_def)
  have "withRetry_default (validate_attempt net Gemini apiKey model) w = (Inl e, ?w1)"
    unfolding withRetry_default_def
    using withRetry_fatal [where fn = "validate_attempt net Gemini apiKey model" and w = w, OF f] nr
    by simp
  with key have v: "validateApiKey net Gemini apiKey model w
                    = (Inr False, ?w1\<lparr>console := console ?w1 @ [ValidationFailed e]\<rparr>)"
    by (simp add: validateApiKey_def)
  show "fst (validateApiKey net Gemini apiKey model w) = Inr False"
    and "calls (snd (validateApiKey net Gemini apiKey model w)) Validation = calls w Validation + 1"
    and "clock (snd (validateApiKey net Gemini apiKey model w)) = clock w"
    by (simp_all add: v)
qed

text \<open>
  C9. \<^verbatim>\<open>validateApiKey\<close> always resolves to a boolean. When every call of the provider
  answers HTTP 401 (a response with status 401 from \<^verbatim>\<open>fetch\<close>, or, for Gemini, an SDK error
  with status 401) it resolves to \<open>False\<close> after exactly one call and without waiting. When
  every call fails in the transport it resolves to \<open>False\<close>.
\<close>

theorem validateApiKey_boolean:
  "(\<exists>b. fst (validateApiKey net provider apiKey model w) = Inr b)
   \<and> (apiKey \<noteq> [] \<and> provider \<noteq> Gemini
        \<and> (\<forall>k. \<exists>r. fetch net Validation k = Inr r \<and> resp_status r = 401)
      \<longrightarrow> fst (validateApiKey net provider apiKey model w) = Inr False
          \<and> calls (snd (validateApiKey net provider apiKey model w)) Validation
              = calls w Validation + 1
          \<and> clock (snd (validateApiKey net provider apiKey model w)) = clock w)
   \<and> (apiKey \<noteq> [] \<and> provider = Gemini
        \<and> (\<forall>k. \<exists>e. sdk_generateContent net Validation k = Inl e \<and> status e = Some 401)
      \<longrightarrow> fst (validateApiKey net provider apiKey model w) = Inr False
          \<and> calls (snd (validateApiKey net provider apiKey model w)) Validation
              = calls w Validation + 1
          \<and> clock (snd (validateApiKey net provider apiKey model w)) = clock w)
   \<and> (apiKey \<noteq> []
        \<and> (provider = Gemini \<longrightarrow> (\<forall>k. \<exists>e. sdk_generateContent net Validation k = Inl e))
        \<and> (provider \<noteq> Gemini \<longrightarrow> (\<forall>k. \<exists>e. fetch net Validation k = Inl e))
      \<longrightarrow> fst (validateApiKey net provider apiKey model w) = Inr False)"
proof (intro conjI impI)
  show "\<exists>b. fst (validateApiKey net provider apiKey model w) = Inr b"
    by (rule validateApiKey_total)
next
  assume a: "apiKey \<noteq> [] \<and> provider \<noteq> Gemini
        \<and> (\<forall>k. \<exists>r. fetch net Validation k = Inr r \<and> resp_status r = 401)"
  then obtain r where r: "fetch net Validation (calls w Validation) = Inr r" "resp_status r = 401"
    by blast
  from a have k: "apiKey \<noteq> []" and p: "provider \<noteq> Gemini" by simp_all
  show "fst (validateApiKey net provider apiKey model w) = Inr False"
    using validateApiKey_fetch_401(1) [OF k p r] .
  show "calls (snd (validateApiKey net provider apiKey model w)) Validation = calls w Validation + 1"
    using validateApiKey_fetch_401(2) [OF k p r] .
  show "clock (snd (validateApiKey net provider apiKey model w)) = clock w"
    using validateApiKey_fetch_401(3) [OF k p r] .
next
  assume a: "apiKey \<noteq> [] \<and> provider = Gemini
        \<and> (\<forall>k. \<exists>e. sdk_generateContent net Validation k = Inl e \<and> status e = Some 401)"
  then obtain e where e: "sdk_generateContent net Validation (calls w Validation) = Inl e"
      "status e = Some 401"
    by blast
  from a have k: "apiKey \<noteq> []" and p: "provider = Gemini" by simp_all
  show "fst (validateApiKey net provider apiKey model w) = Inr False"
    unfolding p using validateApiKey_sdk_401(1) [OF k e] .
  show "calls (snd (validateApiKey net provider apiKey model w)) Validation = calls w Validation + 1"
    unfolding p using validateApiKey_sdk_401(2) [OF k e] .
  show "clock (snd (validateApiKey net provider apiKey model w)) = clock w"
    unfolding p using validateApiKey_sdk_401(3) [OF k e] .
next
  assume a: "apiKey \<noteq> []
        \<and> (provider = Gemini \<longrightarrow> (\<forall>k. \<exists>e. sdk_generateContent net Validation k = Inl e))
        \<and> (provider \<noteq> Gemini \<longrightarrow> (\<forall>k. \<exists>e. fetch net Validation k = Inl e))"
  then show "fst (validateApiKey net provider apiKey model w) = Inr False"
    using validateApiKey_transport_failure [of apiKey provider net model w] by blast
qed

theorem validateApiKey_boolean_witness:
  "js ''sk-1'' \<noteq> []
   \<and> fst (validateApiKey
        \<lparr>sdk_generateContent = (\<lambda>ch k. Inl \<lparr>status = Some 401, message = Some (js ''denied'')\<rparr>),
         fetch = (\<lambda>ch k. Inr \<lparr>resp_status = 401, resp_body = []\<rparr>)\<rparr>
        OpenAI (js ''sk-1'') (js ''m'')
        \<lparr>console = [], clock = 0, calls = (\<lambda>ch. 0), progress = []\<rparr>) = Inr False
   \<and> calls (snd (validateApiKey
        \<lparr>sdk_generateContent = (\<lambda>ch k. Inl \<lparr>status = Some 401, message = Some (js ''denied'')\<rparr>),
         fetch = (\<lambda>ch k. Inr \<lparr>resp_status = 401, resp_body = []\<rparr>)\<rparr>
        OpenAI (js ''sk-1'') (js ''m'')
        \<lparr>console = [], clock = 0, calls = (\<lambda>ch. 0), progress = []\<rparr>)) Validation = 1
   \<and> fst (validateApiKey
        \<lparr>sdk_generateContent = (\<lambda>ch k. Inl \<lparr>status = Some 401, message = Some (js ''denied'')\<rparr>),
         fetch = (\<lambda>ch k. Inr \<lparr>resp_status = 401, resp_body = []\<rparr>)\<rparr>
        Gemini (js ''sk-1'') (js ''m'')
        \<lparr>console = [], clock = 0, calls = (\<lambda>ch. 0), progress = []\<rparr>) = Inr False
   \<and> calls (snd (validateApiKey
        \<lparr>sdk_generateContent = (\<lambda>ch k. Inl \<lparr>status = Some 401, message = Some (js ''denied'')\<rparr>),
         fetch = (\<lambda>ch k. Inr \<lparr>resp_status = 401, resp_body = []\<rparr>)\<rparr>
        Gemini (js ''sk-1'') (js ''m'')
        \<lparr>console = [], clock = 0, calls = (\<lambda>ch. 0), progress = []\<rparr>)) Validation = 1
   \<and> fst (validateApiKey
        \<lparr>sdk_generateContent = (\<lambda>ch k. Inl \<lparr>status = None, message = Some (js ''offline'')\<rparr>),
         fetch = (\<lambda>ch k. Inl \<lparr>status = None, message = Some (js ''offline'')\<rparr>)\<rparr>
        Anthropic (js ''sk-1'') (js ''m'')
        \<lparr>console = [], clock = 0, calls = (\<lambda>ch. 0), progress = []\<rparr>) = Inr False"
proof -
  let ?net = "\<lparr>sdk_generateContent = (\<lambda>ch k. Inl \<lparr>status = Some 401, message = Some (js ''denied'')\<rparr>),
         fetch = (\<lambda>ch k. Inr \<lparr>resp_status = 401, resp_body = []\<rparr>)\<rparr>"
  let ?off = "\<lparr>sdk_generateContent = (\<lambda>ch k. Inl \<lparr>status = None, message = Some (js ''offline'')\<rparr>),
         fetch = (\<lambda>ch k. Inl \<lparr>status = None, message = Some (js ''offline'')\<rparr>)\<rparr>"
  let ?w = "\<lparr>console = [], clock = 0, calls = (\<lambda>ch. 0), progress = []\<rparr>"
  have k: "js ''sk-1'' \<noteq> []" by (simp add: js_def)
  have h1: "\<forall>k. \<exists>r. fetch ?net Validation k = Inr r \<and> resp_status r = 401" by simp
  have h2: "\<forall>k. \<exists>e. sdk_generateContent ?net Validation k = Inl e \<and> status e = Some 401" by simp
  have h3: "\<forall>k. \<exists>e. fetch ?off Validation k = Inl e" by simp
  from validateApiKey_boolean [of ?net OpenAI "js ''sk-1''" "js ''m''" ?w] k h1
  have a: "fst (validateApiKey ?net OpenAI (js ''sk-1'') (js ''m'') ?w) = Inr False"
    "calls (snd (validateApiKey ?net OpenAI (js ''sk-1'') (js ''m'') ?w)) Validation = 1"
    by simp_all
  from validateApiKey_boolean [of ?net Gemini "js ''sk-1''" "js ''m''" ?w] k h2
  have b: "fst (validateApiKey ?net Gemini (js ''sk-1'') (js ''m'') ?w) = Inr False"
    "calls (snd (validateApiKey ?net Gemini (js ''sk-1'') (js ''m'') ?w)) Validation = 1"
    by simp_all
  from validateApiKey_boolean [of ?off Anthropic "js ''sk-1''" "js ''m''" ?w] k h3
  have c: "fst (validateApiKey ?off Anthropic (js ''sk-1'') (js ''m'') ?w) = Inr False"
    by simp
  show ?thesis using k a b c by simp
qed

section \<open>Reading parsed JSON as JavaScript values\<close>

text \<open>
  The value of an expression over parsed JSON is a JSON value or \<^verbatim>\<open>undefined\<close>. Reading a
  property of \<^verbatim>\<open>null\<close> or \<^verbatim>\<open>undefined\<close> throws a \<^verbatim>\<open>TypeError\<close>, here \<open>None\<close>. On an object
  the last member with the name counts, as \<^verbatim>\<open>JSON.parse\<close> builds it. The names read by this
  program (\<^verbatim>\<open>type\<close>, \<^verbatim>\<open>delta\<close>, \<^verbatim>\<open>text\<close>, \<^verbatim>\<open>choices\<close>, \<^verbatim>\<open>content\<close>, \<^verbatim>\<open>message\<close>,
  \<^verbatim>\<open>posts\<close>) are not properties of arrays, strings, numbers or booleans, so reading them
  there gives \<^verbatim>\<open>undefined\<close>.
\<close>

datatype jsval = Undefined | Val json

definition nullish :: "jsval \<Rightarrow> bool" where
  "nullish x \<longleftrightarrow> x = Undefined \<or> x = Val JNull"

definition own_member :: "(jsstring \<times> json) list \<Rightarrow> jsstring \<Rightarrow> jsval" where
  "own_member ms name = (case map_of (rev ms) name of None \<Rightarrow> Undefined | Some v \<Rightarrow> Val v)"

text \<open>\<^verbatim>\<open>x.name\<close>.\<close>

fun get :: "jsval \<Rightarrow> jsstring \<Rightarrow> jsval option" where
  "get Undefined name = None"
| "get (Val JNull) name = None"
| "get (Val (JObject ms)) name = Some (own_member ms name)"
| "get (Val v) name = Some Undefined"

text \<open>\<^verbatim>\<open>x[0]\<close>.\<close>

fun get0 :: "jsval \<Rightarrow> jsval option" where
  "get0 Undefined = None"
| "get0 (Val JNull) = None"
| "get0 (Val (JObject ms)) = Some (own_member ms (js ''0''))"
| "get0 (Val (JArray xs)) = Some (case xs of [] \<Rightarrow> Undefined | x # _ \<Rightarrow> Val x)"
| "get0 (Val (JString s)) = Some (case s of [] \<Rightarrow> Undefined | c # _ \<Rightarrow> Val (JString [c]))"
| "get0 (Val v) = Some Undefined"

text \<open>
  A number \<open>\<plusminus> m \<times> 10\<^sup>e\<close> is the double zero when \<open>m = 0\<close> or when it is at most \<open>2\<^sup>-\<^sup>1\<^sup>0\<^sup>7\<^sup>5\<close>, half
  of the least positive double.
\<close>

definition rounds_to_zero :: "nat \<Rightarrow> int \<Rightarrow> bool" where
  "rounds_to_zero m e \<longleftrightarrow> m = 0 \<or> (e < 0 \<and> m * 2 ^ 1075 \<le> 10 ^ nat (- e))"

text \<open>The value in a condition.\<close>

fun truthy :: "jsval \<Rightarrow> bool" where
  "truthy Undefined = False"
| "truthy (Val JNull) = False"
| "truthy (Val (JBool b)) = b"
| "truthy (Val (JNumber neg m e)) = (\<not> rounds_to_zero m e)"
| "truthy (Val (JString s)) = (s \<noteq> [])"
| "truthy (Val (JArray xs)) = True"
| "truthy (Val (JObject ms)) = True"

section \<open>\<^verbatim>\<open>generateStream\<close>\<close>

record stream_state =
  isFirstChunk :: bool
  yielded :: "jsstring list"

text \<open>
  The block that both loops of \<^verbatim>\<open>generateStream\<close> run on a text: clean it, and if the result
  is not empty, yield it and clear the flag.
\<close>

definition yield_clean :: "jsstring \<Rightarrow> stream_state \<Rightarrow> stream_state" where
  "yield_clean text st =
     (let cleanChunk = cleanStreamChunk text (isFirstChunk st)
      in if cleanChunk \<noteq> []
         then st\<lparr>yielded := yielded st @ [cleanChunk], isFirstChunk := False\<rparr>
         else st)"

text \<open>
  The loop over the chunks of the Gemini stream. The \<^verbatim>\<open>text\<close> of a chunk is a string or
  \<^verbatim>\<open>undefined\<close> (\<open>None\<close>); on \<^verbatim>\<open>undefined\<close> the cleaner throws a \<^verbatim>\<open>TypeError\<close>, which ends
  the generator. The result says whether the loop ended by that error.
\<close>

fun gemini_loop :: "jsstring option list \<Rightarrow> stream_state \<Rightarrow> bool \<times> stream_state" where
  "gemini_loop [] st = (False, st)"
| "gemini_loop (None # chunks) st = (True, st)"
| "gemini_loop (Some text # chunks) st = gemini_loop chunks (yield_clean text st)"

text \<open>
  \<^verbatim>\<open>buffer.split('\n')\<close>: the pieces between line feeds; there is always a last piece, which
  is empty when the text ends with a line feed.
\<close>

fun split_nl :: "jsstring \<Rightarrow> jsstring list" where
  "split_nl [] = [[]]"
| "split_nl (c # cs) =
     (if c = 10 then [] # split_nl cs
      else (case split_nl cs of l # ls \<Rightarrow> (c # l) # ls | [] \<Rightarrow> [[c]]))"

text \<open>
  The text delta of a parsed event. For Anthropic: \<^verbatim>\<open>parsed.delta.text\<close> when
  \<^verbatim>\<open>parsed.type === 'content_block_delta'\<close>; for the others
  \<^verbatim>\<open>parsed.choices[0].delta.content\<close> when \<^verbatim>\<open>parsed.choices?.[0]?.delta?.content\<close> is truthy;
  otherwise the initial empty string. \<open>None\<close> is a \<^verbatim>\<open>TypeError\<close>.
\<close>

definition optional :: "jsval \<Rightarrow> (jsval \<Rightarrow> jsval option) \<Rightarrow> jsval option" where
  "optional x f = (if nullish x then Some Undefined else f x)"

definition textChunk_of :: "AiProvider \<Rightarrow> json \<Rightarrow> jsval option" where
  "textChunk_of provider parsed =
     (if provider = Anthropic then
        (case get (Val parsed) (js ''type'') of
           None \<Rightarrow> None
         | Some t \<Rightarrow>
             if t = Val (JString (js ''content_block_delta''))
             then (case get (Val parsed) (js ''delta'') of
                     None \<Rightarrow> None
                   | Some d \<Rightarrow> get d (js ''text''))
             else Some (Val (JString [])))
      else
        (case get (Val parsed) (js ''choices'') of
           None \<Rightarrow> None
         | Some choices \<Rightarrow>
             (case optional choices get0 of
                None \<Rightarrow> None
              | Some choice \<Rightarrow>
                  (case optional choice (\<lambda>x. get x (js ''delta'')) of
                     None \<Rightarrow> None
                   | Some delta \<Rightarrow>
                       (case optional delta (\<lambda>x. get x (js ''content'')) of
                          None \<Rightarrow> None
                        | Some content \<Rightarrow>
                            if truthy content then Some content
                            else Some (Val (JString [])))))))"

text \<open>
  One line of the event stream. \<open>Stop\<close> is the \<^verbatim>\<open>return\<close> at the end sentinel. A line whose
  JSON does not parse, or whose processing throws a \<^verbatim>\<open>TypeError\<close> (a missing member, or a
  truthy delta that is not a string, on which \<^verbatim>\<open>replace\<close> is not a function), falls into the
  empty \<^verbatim>\<open>catch\<close> and changes nothing.
\<close>

datatype 'a flow = Continue 'a | Stop 'a

definition process_line :: "AiProvider \<Rightarrow> jsstring \<Rightarrow> stream_state \<Rightarrow> stream_state flow" where
  "process_line provider line st =
     (if \<not> prefix (js ''data: '') line then Continue st
      else
        let data = drop 6 line in
        if trim data = js ''[DONE]'' then Stop st
        else
          (case json_parse data of
             None \<Rightarrow> Continue st
           | Some parsed \<Rightarrow>
               (case textChunk_of provider parsed of
                  None \<Rightarrow> Continue st
                | Some textChunk \<Rightarrow>
                    if truthy textChunk
                    then (case textChunk of
                            Val (JString text) \<Rightarrow> Continue (yield_clean text st)
                          | _ \<Rightarrow> Continue st)
                    else Continue st)))"

fun process_lines :: "AiProvider \<Rightarrow> jsstring list \<Rightarrow> stream_state \<Rightarrow> stream_state flow" where
  "process_lines provider [] st = Continue st"
| "process_lines provider (line # lines) st =
     (case process_line provider line st of
        Stop st' \<Rightarrow> Stop st'
      | Continue st' \<Rightarrow> process_lines provider lines st')"

text \<open>
  The loop over the reads of the response body. \<open>reads\<close> are the texts that the decoder makes
  of the successive reads, up to the end of the body; \<open>ending\<close> is the error of the read that
  fails, if one does. The result is the error that ends the generator, if any, and the state.
\<close>

fun read_loop ::
  "AiProvider \<Rightarrow> jsstring list \<Rightarrow> js_error option \<Rightarrow> jsstring \<Rightarrow> stream_state
   \<Rightarrow> js_error option \<times> stream_state" where
  "read_loop provider [] ending buffer st = (ending, st)"
| "read_loop provider (value # reads) ending buffer st =
     (let lines = split_nl (buffer @ value) in
      case process_lines provider (butlast lines) st of
        Stop st' \<Rightarrow> (None, st')
      | Continue st' \<Rightarrow> read_loop provider reads ending (last lines) st')"

text \<open>
  The faults raised by the engine itself. Their messages differ between engines, so the
  message of each fault is a parameter of the model.
\<close>

datatype engine_fault =
    JsonSyntax jsstring
  | PropertyOfNullish jsstring
  | NotAFunction jsstring

type_synonym engine = "engine_fault \<Rightarrow> jsstring"

definition engine_error :: "engine \<Rightarrow> engine_fault \<Rightarrow> js_error" where
  "engine_error eng fault = \<lparr>status = None, message = Some (eng fault)\<rparr>"

text \<open>A number in a template string.\<close>

fun show_nat :: "nat \<Rightarrow> jsstring" where
  "show_nat n = (if n < 10 then [48 + n] else show_nat (n div 10) @ [48 + n mod 10])"

declare show_nat.simps [simp del]

text \<open>
  The transport of one streaming call. For Gemini: the error thrown by
  \<^verbatim>\<open>generateContentStream\<close>, or the \<^verbatim>\<open>text\<close> of each chunk of the stream and the error that
  ends the iteration, if one does. For the others: the error thrown by \<^verbatim>\<open>fetch\<close>, or the
  status of the response and its body (absent, or the decoded reads and the error of the read
  that fails, if one does).
\<close>

record stream_response =
  sr_status :: nat
  sr_body :: "(jsstring list \<times> js_error option) option"

record stream_network =
  sdk_generateContentStream :: "js_error + (jsstring option list \<times> js_error option)"
  fetch_stream :: "js_error + stream_response"

text \<open>
  \<^verbatim>\<open>generateStream\<close>: what the generator yields, in order, and the error that ends it, if any.
\<close>

definition generateStream ::
  "engine \<Rightarrow> AiProvider \<Rightarrow> jsstring \<Rightarrow> jsstring \<Rightarrow> jsstring \<Rightarrow> stream_network
   \<Rightarrow> js_error option \<times> stream_state" where
  "generateStream eng provider apiKey modelForProvider prompt net =
     (let st0 = \<lparr>isFirstChunk = True, yielded = []\<rparr> in
      if provider = Gemini then
        (case sdk_generateContentStream net of
           Inl e \<Rightarrow> (Some e, st0)
         | Inr (chunks, ending) \<Rightarrow>
             (case gemini_loop chunks st0 of
                (True, st) \<Rightarrow> (Some (engine_error eng (PropertyOfNullish (js ''replace''))), st)
              | (False, st) \<Rightarrow> (ending, st)))
      else
        (case getProviderConfig provider apiKey of
           Inl e \<Rightarrow> (Some e, st0)
         | Inr config \<Rightarrow>
             (case fetch_stream net of
                Inl e \<Rightarrow> (Some e, st0)
              | Inr response \<Rightarrow>
                  (case sr_body response of
                     None \<Rightarrow>
                       (Some \<lparr>status = None,
                              message = Some (js ''API Stream Error: '' @ show_nat (sr_status response))\<rparr>,
                        st0)
                   | Some (reads, ending) \<Rightarrow>
                       if \<not> (200 \<le> sr_status response \<and> sr_status response \<le> 299)
                       then (Some \<lparr>status = None,
                                   message = Some (js ''API Stream Error: ''
                                                   @ show_nat (sr_status response))\<rparr>,
                             st0)
                       else read_loop provider reads ending [] st0))))"

text \<open>
  \<^verbatim>\<open>generateSnippet\<close> and \<^verbatim>\<open>refreshSnippet\<close> build their prompt, choose the model and return
  the generator of \<^verbatim>\<open>generateStream\<close> as it is. The prompts are fixed texts around the
  arguments and are kept abstract here.
\<close>

definition activeModel :: "AiProvider \<Rightarrow> jsstring \<Rightarrow> jsstring" where
  "activeModel provider model = (if provider = Gemini then js ''gemini-3-pro-preview'' else model)"

definition generateSnippet ::
  "engine \<Rightarrow> jsstring \<Rightarrow> AiProvider \<Rightarrow> jsstring \<Rightarrow> jsstring \<Rightarrow> stream_network
   \<Rightarrow> js_error option \<times> stream_state" where
  "generateSnippet eng apiKey provider prompt model net =
     generateStream eng provider apiKey (activeModel provider model) prompt net"

definition refreshSnippet ::
  "engine \<Rightarrow> jsstring \<Rightarrow> AiProvider \<Rightarrow> jsstring \<Rightarrow> jsstring \<Rightarrow> stream_network
   \<Rightarrow> js_error option \<times> stream_state" where
  "refreshSnippet eng apiKey provider prompt model net =
     generateStream eng provider apiKey (activeModel provider model) prompt net"

subsection \<open>The first-chunk flag and the yielded chunks\<close>

definition stream_inv :: "stream_state \<Rightarrow> bool" where
  "stream_inv st \<longleftrightarrow>
     (\<forall>c \<in> set (yielded st). c \<noteq> []) \<and> (isFirstChunk st \<longleftrightarrow> yielded st = [])"

lemma yield_clean_inv: "stream_inv st \<Longrightarrow> stream_inv (yield_clean text st)"
  by (auto simp: stream_inv_def yield_clean_def Let_def)

lemma yield_clean_empty:
  "cleanStreamChunk text (isFirstChunk st) = [] \<Longrightarrow> yield_clean text st = st"
  by (simp add: yield_clean_def)

lemma gemini_loop_inv: "stream_inv st \<Longrightarrow> stream_inv (snd (gemini_loop chunks st))"
  by (induction chunks st rule: gemini_loop.induct) (simp_all add: yield_clean_inv)

lemma process_line_inv:
  "stream_inv st \<Longrightarrow> process_line provider line st = Continue st' \<or>
     process_line provider line st = Stop st' \<Longrightarrow> stream_inv st'"
  by (auto simp: process_line_def Let_def yield_clean_inv
           split: if_splits option.splits jsval.splits json.splits)

definition state_of :: "'a flow \<Rightarrow> 'a" where
  "state_of f = (case f of Continue s \<Rightarrow> s | Stop s \<Rightarrow> s)"

lemma process_lines_inv:
  "stream_inv st \<Longrightarrow> stream_inv (state_of (process_lines provider lines st))"
proof (induction lines arbitrary: st)
  case Nil
  then show ?case by (simp add: state_of_def)
next
  case (Cons line lines)
  show ?case
  proof (cases "process_line provider line st")
    case (Continue st')
    with Cons.prems have "stream_inv st'" using process_line_inv by blast
    with Cons.IH Continue show ?thesis by simp
  next
    case (Stop st')
    with Cons.prems have "stream_inv st'" using process_line_inv by blast
    with Stop show ?thesis by (simp add: state_of_def)
  qed
qed

lemma read_loop_inv:
  "stream_inv st \<Longrightarrow> stream_inv (snd (read_loop provider reads ending buffer st))"
proof (induction reads arbitrary: buffer st)
  case Nil
  then show ?case by simp
next
  case (Cons v reads)
  let ?ls = "butlast (split_nl (buffer @ v))"
  have i: "stream_inv (state_of (process_lines provider ?ls st))"
    using Cons.prems by (rule process_lines_inv)
  show ?case
  proof (cases "process_lines provider ?ls st")
    case (Continue st')
    with i have "stream_inv st'" by (simp add: state_of_def)
    with Cons.IH Continue show ?thesis by (simp add: Let_def)
  next
    case (Stop st')
    with i show ?thesis by (simp add: state_of_def Let_def)
  qed
qed

lemma stream_inv_init: "stream_inv \<lparr>isFirstChunk = True, yielded = []\<rparr>"
  by (simp add: stream_inv_def)

lemma generateStream_inv:
  "stream_inv (snd (generateStream eng provider apiKey model prompt net))"
proof -
  let ?st0 = "\<lparr>isFirstChunk = True, yielded = []\<rparr>"
  have g: "stream_inv (snd (gemini_loop chunks ?st0))" for chunks
    using stream_inv_init by (rule gemini_loop_inv)
  have r: "stream_inv (snd (read_loop provider reads ending [] ?st0))" for reads ending
    using stream_inv_init by (rule read_loop_inv)
  show ?thesis
  proof (cases "provider = Gemini")
    case True
    show ?thesis
    proof (cases "sdk_generateContentStream net")
      case (Inl e)
      with True show ?thesis by (simp add: generateStream_def stream_inv_init)
    next
      case (Inr p)
      obtain chunks ending where p: "p = (chunks, ending)" by (cases p)
      obtain b st where l: "gemini_loop chunks ?st0 = (b, st)" by (cases "gemini_loop chunks ?st0")
      with g [of chunks] have "stream_inv st" by simp
      with True Inr p l show ?thesis by (cases b) (simp_all add: generateStream_def)
    qed
  next
    case False
    show ?thesis
    proof (cases "getProviderConfig provider apiKey")
      case (Inl e)
      with False show ?thesis by (simp add: generateStream_def stream_inv_init)
    next
      case c: (Inr config)
      show ?thesis
      proof (cases "fetch_stream net")
        case (Inl e)
        with False c show ?thesis by (simp add: generateStream_def stream_inv_init)
      next
        case (Inr response)
        show ?thesis
        proof (cases "sr_body response")
          case None
          with False c Inr show ?thesis by (simp add: generateStream_def stream_inv_init)
        next
          case (Some p)
          obtain reads ending where p: "p = (reads, ending)" by (cases p)
          with False c Inr Some r [of reads ending] show ?thesis
            by (simp add: generateStream_def stream_inv_init Let_def)
        qed
      qed
    qed
  qed
qed

lemma gemini_loop_skip:
  "\<forall>t \<in> set texts. cleanStreamChunk t (isFirstChunk st) = [] \<Longrightarrow>
   gemini_loop (map Some texts @ chunks) st = gemini_loop chunks st"
  by (induction texts) (simp_all add: yield_clean_empty)

text \<open>
  C10. Every chunk yielded by \<^verbatim>\<open>generateStream\<close> (and so by \<^verbatim>\<open>generateSnippet\<close> and
  \<^verbatim>\<open>refreshSnippet\<close>), for every provider and every behaviour of the transport, is a
  non-empty string, and the first-chunk flag is set exactly as long as nothing has been
  yielded. Chunks whose cleaned text is empty leave the state as it is, so after any number
  of such chunks at the start of a stream the next chunk is still cleaned as a first chunk;
  a chunk whose cleaned text is not empty is yielded and clears the flag.
\<close>

theorem generateStream_first_chunk:
  "(\<forall>c \<in> set (yielded (snd (generateStream eng provider apiKey model prompt net))). c \<noteq> [])
   \<and> (isFirstChunk (snd (generateStream eng provider apiKey model prompt net))
        \<longleftrightarrow> yielded (snd (generateStream eng provider apiKey model prompt net)) = [])
   \<and> (\<forall>c \<in> set (yielded (snd (generateSnippet eng apiKey provider prompt model net))). c \<noteq> [])
   \<and> (\<forall>c \<in> set (yielded (snd (refreshSnippet eng apiKey provider prompt model net))). c \<noteq> [])
   \<and> ((\<forall>t \<in> set texts. cleanStreamChunk t True = [])
        \<longrightarrow> gemini_loop (map Some texts @ chunks) \<lparr>isFirstChunk = True, yielded = []\<rparr>
            = gemini_loop chunks \<lparr>isFirstChunk = True, yielded = []\<rparr>)
   \<and> (cleanStreamChunk text (isFirstChunk st) = [] \<longrightarrow> yield_clean text st = st)
   \<and> (cleanStreamChunk text (isFirstChunk st) \<noteq> []
        \<longrightarrow> yield_clean text st
            = st\<lparr>yielded := yielded st @ [cleanStreamChunk text (isFirstChunk st)],
                 isFirstChunk := False\<rparr>)"
proof -
  have a: "stream_inv (snd (generateStream eng provider apiKey model prompt net))"
    by (rule generateStream_inv)
  have b: "stream_inv (snd (generateSnippet eng apiKey provider prompt model net))"
    unfolding generateSnippet_def by (rule generateStream_inv)
  have c: "stream_inv (snd (refreshSnippet eng apiKey provider prompt model net))"
    unfolding refreshSnippet_def by (rule generateStream_inv)
  have d: "(\<forall>t \<in> set texts. cleanStreamChunk t True = [])
        \<longrightarrow> gemini_loop (map Some texts @ chunks) \<lparr>isFirstChunk = True, yielded = []\<rparr>
            = gemini_loop chunks \<lparr>isFirstChunk = True, yielded = []\<rparr>"
    using gemini_loop_skip [of texts "\<lparr>isFirstChunk = True, yielded = []\<rparr>" chunks] by simp
  have e: "cleanStreamChunk text (isFirstChunk st) = [] \<longrightarrow> yield_clean text st = st"
    by (simp add: yield_clean_empty)
  have f: "cleanStreamChunk text (isFirstChunk st) \<noteq> []
        \<longrightarrow> yield_clean text st
            = st\<lparr>yielded := yielded st @ [cleanStreamChunk text (isFirstChunk st)],
                 isFirstChunk := False\<rparr>"
    by (simp add: yield_clean_def)
  from a have a1: "\<forall>c \<in> set (yielded (snd (generateStream eng provider apiKey model prompt net))). c \<noteq> []"
    and a2: "isFirstChunk (snd (generateStream eng provider apiKey model prompt net))
        \<longleftrightarrow> yielded (snd (generateStream eng provider apiKey model prompt net)) = []"
    by (simp_all add: stream_inv_def)
  from b have b1: "\<forall>c \<in> set (yielded (snd (generateSnippet eng apiKey provider prompt model net))). c \<noteq> []"
    by (simp add: stream_inv_def)
  from c have c1: "\<forall>c \<in> set (yielded (snd (refreshSnippet eng apiKey provider prompt model net))). c \<noteq> []"
    by (simp add: stream_inv_def)
  show ?thesis
    apply (intro conjI)
    subgoal by (rule a1)
    subgoal by (rule a2)
    subgoal by (rule b1)
    subgoal by (rule c1)
    subgoal by (rule d)
    subgoal by (rule e)
    subgoal by (rule f)
    done
qed

theorem generateStream_first_chunk_witness:
  "cleanStreamChunk (js ''```html'' @ [10]) True = []
   \<and> gemini_loop [Some (js ''```html'' @ [10]), Some (js ''```'' @ [10] @ js ''<div>'')]
        \<lparr>isFirstChunk = True, yielded = []\<rparr>
      = (False, \<lparr>isFirstChunk = False, yielded = [js ''<div>'']\<rparr>)
   \<and> js ''<div>'' \<in> set (yielded (snd (generateStream (\<lambda>f. [])
         Gemini (js ''k'') (js ''m'') (js ''p'')
         \<lparr>sdk_generateContentStream =
            Inr ([Some (js ''```html'' @ [10]), Some (js ''```'' @ [10] @ js ''<div>'')], None),
          fetch_stream = Inl \<lparr>status = None, message = None\<rparr>\<rparr>)))
   \<and> js ''<div>'' \<noteq> []"
proof -
  let ?st0 = "\<lparr>isFirstChunk = True, yielded = []\<rparr>"
  let ?c1 = "js ''```html'' @ [10]"
  let ?c2 = "js ''```'' @ [10] @ js ''<div>''"
  let ?net = "\<lparr>sdk_generateContentStream = Inr ([Some ?c1, Some ?c2], None),
          fetch_stream = Inl \<lparr>status = None, message = None\<rparr>\<rparr>"
  have h1: "cleanStreamChunk ?c1 True = []"
    by (simp add: cleanStreamChunk_def replace_leading_html_def replace_leading_fence_def
          FENCE_def is_html_ci_def is_space_def js_def)
  have h2: "cleanStreamChunk ?c2 True = js ''<div>''"
    by (simp add: cleanStreamChunk_def replace_leading_html_def replace_leading_fence_def
          FENCE_def is_html_ci_def is_space_def js_def)
  have h3: "js ''<div>'' \<noteq> []" by (simp add: js_def)
  note t = generateStream_first_chunk [of "\<lambda>f. []" Gemini "js ''k''" "js ''m''" "js ''p''" ?net
              "[?c1]" "[Some ?c2]" ?c2 ?st0]
  from t h1 have "gemini_loop [Some ?c1, Some ?c2] ?st0 = gemini_loop [Some ?c2] ?st0"
    by simp
  moreover from t h2 h3 have "yield_clean ?c2 ?st0 = \<lparr>isFirstChunk = False, yielded = [js ''<div>'']\<rparr>"
    by simp
  ultimately have g: "gemini_loop [Some ?c1, Some ?c2] ?st0
      = (False, \<lparr>isFirstChunk = False, yielded = [js ''<div>'']\<rparr>)"
    by simp
  then have "snd (generateStream (\<lambda>f. []) Gemini (js ''k'') (js ''m'') (js ''p'') ?net)
      = \<lparr>isFirstChunk = False, yielded = [js ''<div>'']\<rparr>"
    by (simp add: generateStream_def)
  then have m: "js ''<div>'' \<in> set (yielded (snd (generateStream (\<lambda>f. [])
         Gemini (js ''k'') (js ''m'') (js ''p'') ?net)))"
    by simp
  with t have "js ''<div>'' \<noteq> []" by blast
  with h1 g m show ?thesis by simp
qed

subsection \<open>The decoder of the event stream\<close>

lemma split_nl_nonempty [simp]: "split_nl s \<noteq> []"
  by (induction s) (auto split: list.splits)

lemma split_nl_no_nl: "10 \<notin> set s \<Longrightarrow> split_nl s = [s]"
  by (induction s) auto

lemma split_nl_pieces: "l \<in> set (split_nl s) \<Longrightarrow> 10 \<notin> set l"
proof (induction s arbitrary: l)
  case Nil
  then show ?case by simp
next
  case (Cons c cs)
  show ?case
  proof (cases "c = 10")
    case True
    with Cons show ?thesis by auto
  next
    case False
    obtain p ps where p: "split_nl cs = p # ps" by (cases "split_nl cs") auto
    with Cons.prems False have "l = c # p \<or> l \<in> set ps" by simp
    with Cons.IH p False show ?thesis by auto
  qed
qed

lemma split_nl_append:
  "split_nl (a @ b) = butlast (split_nl a) @ split_nl (last (split_nl a) @ b)"
proof (induction a)
  case Nil
  show ?case by simp
next
  case (Cons c a)
  show ?case
  proof (cases "c = 10")
    case True
    with Cons show ?thesis by simp
  next
    case False
    obtain p ps where p: "split_nl a = p # ps" by (cases "split_nl a") auto
    show ?thesis
    proof (cases ps)
      case Nil
      with p Cons have "split_nl (a @ b) = split_nl (p @ b)" by simp
      with p Nil False show ?thesis by simp
    next
      case (Cons q qs)
      with p Cons.IH have "split_nl (a @ b) = p # butlast ps @ split_nl (last ps @ b)" by simp
      with p Cons False show ?thesis by simp
    qed
  qed
qed

lemma butlast_split_nl_append:
  "butlast (split_nl (a @ b)) =
     butlast (split_nl a) @ butlast (split_nl (last (split_nl a) @ b))"
  by (subst split_nl_append) (simp add: butlast_append)

lemma process_lines_append:
  "process_lines provider (ls1 @ ls2) st =
     (case process_lines provider ls1 st of
        Stop st' \<Rightarrow> Stop st'
      | Continue st' \<Rightarrow> process_lines provider ls2 st')"
  by (induction ls1 arbitrary: st) (auto split: flow.splits)

lemma read_loop_lines:
  "10 \<notin> set buffer \<Longrightarrow>
   snd (read_loop provider reads ending buffer st) =
     state_of (process_lines provider (butlast (split_nl (buffer @ concat reads))) st)"
proof (induction reads arbitrary: buffer st)
  case Nil
  then show ?case by (simp add: split_nl_no_nl state_of_def)
next
  case (Cons v reads)
  let ?L = "split_nl (buffer @ v)"
  have nl: "10 \<notin> set (last ?L)"
    using split_nl_pieces [of "last ?L" "buffer @ v"] by simp
  have eq: "butlast (split_nl (buffer @ concat (v # reads))) =
            butlast ?L @ butlast (split_nl (last ?L @ concat reads))"
    using butlast_split_nl_append [of "buffer @ v" "concat reads"] by simp
  show ?case
  proof (cases "process_lines provider (butlast ?L) st")
    case (Continue st')
    with Cons.IH [OF nl, of st'] eq show ?thesis
      by (simp add: process_lines_append Let_def)
  next
    case (Stop st')
    with eq show ?thesis
      by (simp add: process_lines_append Let_def state_of_def)
  qed
qed

text \<open>
  The words of the specification. A line is the end sentinel when it is a data line whose
  payload, trimmed, is \<^verbatim>\<open>[DONE]\<close>. The incremental text delta of an event envelope is, in the
  protocol of Anthropic, the string at \<^verbatim>\<open>delta.text\<close> of an event whose \<^verbatim>\<open>type\<close> is
  \<^verbatim>\<open>content_block_delta\<close> and, in the protocol of the other providers, the string at
  \<^verbatim>\<open>choices[0].delta.content\<close>; an empty string is no delta. The text delta of a line is the
  delta of its envelope, when the line is a data line other than the sentinel whose JSON
  parses. These definitions read the parsed envelope directly: a member of an object, the
  first element of an array (or the member \<^verbatim>\<open>0\<close> of an object), a non-empty string.
\<close>

definition is_done :: "jsstring \<Rightarrow> bool" where
  "is_done line \<longleftrightarrow> prefix (js ''data: '') line \<and> trim (drop 6 line) = js ''[DONE]''"

definition member_of :: "json \<Rightarrow> jsstring \<Rightarrow> json option" where
  "member_of v name = (case v of JObject ms \<Rightarrow> map_of (rev ms) name | _ \<Rightarrow> None)"

definition first_of :: "json \<Rightarrow> json option" where
  "first_of v =
     (case v of
        JArray xs \<Rightarrow> (case xs of [] \<Rightarrow> None | x # _ \<Rightarrow> Some x)
      | JObject ms \<Rightarrow> map_of (rev ms) (js ''0'')
      | _ \<Rightarrow> None)"

definition string_of :: "json option \<Rightarrow> jsstring option" where
  "string_of x = (case x of Some (JString s) \<Rightarrow> if s = [] then None else Some s | _ \<Rightarrow> None)"

definition text_delta :: "AiProvider \<Rightarrow> json \<Rightarrow> jsstring option" where
  "text_delta provider envelope =
     (if provider = Anthropic then
        (if member_of envelope (js ''type'') = Some (JString (js ''content_block_delta''))
         then string_of (Option.bind (member_of envelope (js ''delta''))
                           (\<lambda>d. member_of d (js ''text'')))
         else None)
      else
        string_of
          (Option.bind
             (Option.bind (Option.bind (member_of envelope (js ''choices'')) first_of)
                (\<lambda>c. member_of c (js ''delta'')))
             (\<lambda>d. member_of d (js ''content''))))"

definition line_delta :: "AiProvider \<Rightarrow> jsstring \<Rightarrow> jsstring option" where
  "line_delta provider line =
     (if prefix (js ''data: '') line \<and> \<not> is_done line then
        (case json_parse (drop 6 line) of
           None \<Rightarrow> None
         | Some envelope \<Rightarrow> text_delta provider envelope)
      else None)"

text \<open>
  The least envelopes that carry the delta \<open>s\<close>: \<^verbatim>\<open>{"choices":[{"delta":{"content":s}}]}\<close>
  and \<^verbatim>\<open>{"type":"content_block_delta","delta":{"text":s}}\<close>.
\<close>

definition openai_event :: "jsstring \<Rightarrow> json" where
  "openai_event s =
     JObject [(js ''choices'', JArray [JObject [(js ''delta'', JObject [(js ''content'', JString s)])]])]"

definition anthropic_event :: "jsstring \<Rightarrow> json" where
  "anthropic_event s =
     JObject [(js ''type'', JString (js ''content_block_delta'')),
              (js ''delta'', JObject [(js ''text'', JString s)])]"

definition event_of :: "AiProvider \<Rightarrow> jsstring \<Rightarrow> json" where
  "event_of provider s = (if provider = Anthropic then anthropic_event s else openai_event s)"

text \<open>
  The expressions of the program compute the delta of the protocol: what \<^verbatim>\<open>textChunk\<close> holds
  when it is a non-empty string is the text delta of the envelope, and in every other case
  (an empty or missing member, a member that is not a string, a \<^verbatim>\<open>TypeError\<close>) the envelope
  has no text delta.
\<close>

definition jsval_of :: "json option \<Rightarrow> jsval" where
  "jsval_of m = (case m of None \<Rightarrow> Undefined | Some x \<Rightarrow> Val x)"

definition chunk_text :: "jsval option \<Rightarrow> jsstring option" where
  "chunk_text x =
     (case x of
        Some (Val (JString t)) \<Rightarrow> if t = [] then None else Some t
      | _ \<Rightarrow> None)"

lemma get_member:
  "v \<noteq> JNull \<Longrightarrow> get (Val v) name = Some (jsval_of (member_of v name))"
  by (cases v) (simp_all add: jsval_of_def member_of_def own_member_def split: option.splits)

lemma optional_member:
  "optional (jsval_of m) (\<lambda>x. get x name)
   = Some (jsval_of (Option.bind m (\<lambda>d. member_of d name)))"
proof (cases m)
  case None
  then show ?thesis by (simp add: optional_def jsval_of_def nullish_def)
next
  case (Some v)
  show ?thesis
  proof (cases "v = JNull")
    case True
    with Some show ?thesis by (simp add: optional_def jsval_of_def nullish_def member_of_def)
  next
    case False
    with Some get_member [OF False, of name] show ?thesis
      by (simp add: optional_def nullish_def jsval_of_def)
  qed
qed

lemma optional_first_member:
  "Option.bind (optional (jsval_of m) get0) (\<lambda>ch. optional ch (\<lambda>x. get x name))
   = Some (jsval_of (Option.bind (Option.bind m first_of) (\<lambda>c. member_of c name)))"
proof (cases m)
  case None
  then show ?thesis by (simp add: optional_def jsval_of_def nullish_def)
next
  case (Some v)
  show ?thesis
  proof (cases v)
    case JNull
    with Some show ?thesis by (simp add: optional_def jsval_of_def nullish_def first_of_def)
  next
    case (JBool b)
    with Some show ?thesis by (simp add: optional_def jsval_of_def nullish_def first_of_def)
  next
    case (JNumber n m e)
    with Some show ?thesis by (simp add: optional_def jsval_of_def nullish_def first_of_def)
  next
    case (JString s)
    with Some show ?thesis
      by (cases s) (simp_all add: optional_def jsval_of_def nullish_def first_of_def)
  next
    case (JArray xs)
    show ?thesis
    proof (cases xs)
      case Nil
      with Some JArray show ?thesis
        by (simp add: optional_def jsval_of_def nullish_def first_of_def)
    next
      case (Cons x xs')
      have "optional (jsval_of (Some x)) (\<lambda>x. get x name)
            = Some (jsval_of (Option.bind (Some x) (\<lambda>d. member_of d name)))"
        by (rule optional_member)
      with Some JArray Cons show ?thesis
        by (simp add: optional_def [of "Val (JArray (x # xs'))"] jsval_of_def nullish_def first_of_def)
    qed
  next
    case (JObject ms)
    have "optional (jsval_of (map_of (rev ms) (js ''0''))) (\<lambda>x. get x name)
          = Some (jsval_of (Option.bind (map_of (rev ms) (js ''0'')) (\<lambda>d. member_of d name)))"
      by (rule optional_member)
    with Some JObject show ?thesis
      by (simp add: optional_def [of "Val (JObject ms)"] jsval_of_def nullish_def first_of_def
            own_member_def)
  qed
qed

lemma chunk_text_truthy:
  "chunk_text (if truthy (jsval_of m) then Some (jsval_of m) else Some (Val (JString [])))
   = string_of m"
proof (cases m)
  case None
  then show ?thesis by (simp add: jsval_of_def chunk_text_def string_of_def)
next
  case (Some v)
  then show ?thesis
    by (cases v) (auto simp: jsval_of_def chunk_text_def string_of_def)
qed

lemma textChunk_of_bind:
  "provider \<noteq> Anthropic \<Longrightarrow>
   textChunk_of provider parsed =
     Option.bind (get (Val parsed) (js ''choices''))
       (\<lambda>choices. Option.bind
          (Option.bind (optional choices get0) (\<lambda>ch. optional ch (\<lambda>x. get x (js ''delta''))))
          (\<lambda>delta. Option.bind (optional delta (\<lambda>x. get x (js ''content'')))
             (\<lambda>content. if truthy content then Some content else Some (Val (JString [])))))"
  by (simp add: textChunk_of_def split: option.splits)

lemma textChunk_delta_other:
  assumes "provider \<noteq> Anthropic"
  shows "chunk_text (textChunk_of provider parsed) = text_delta provider parsed"
proof (cases "parsed = JNull")
  case True
  with assms show ?thesis
    by (simp add: textChunk_of_def chunk_text_def text_delta_def member_of_def string_of_def)
next
  case False
  let ?m1 = "member_of parsed (js ''choices'')"
  let ?m3 = "Option.bind (Option.bind ?m1 first_of) (\<lambda>c. member_of c (js ''delta''))"
  let ?m4 = "Option.bind ?m3 (\<lambda>d. member_of d (js ''content''))"
  have 1: "get (Val parsed) (js ''choices'') = Some (jsval_of ?m1)"
    using False by (rule get_member)
  have 2: "Option.bind (optional (jsval_of ?m1) get0) (\<lambda>ch. optional ch (\<lambda>x. get x (js ''delta'')))
           = Some (jsval_of ?m3)"
    by (rule optional_first_member)
  have 3: "optional (jsval_of ?m3) (\<lambda>x. get x (js ''content'')) = Some (jsval_of ?m4)"
    by (rule optional_member)
  have "textChunk_of provider parsed
        = (if truthy (jsval_of ?m4) then Some (jsval_of ?m4) else Some (Val (JString [])))"
    unfolding textChunk_of_bind [OF assms] 1 by (simp only: bind.simps 2 3)
  then have "chunk_text (textChunk_of provider parsed) = string_of ?m4"
    by (simp only: chunk_text_truthy)
  with assms show ?thesis by (simp add: text_delta_def)
qed

lemma textChunk_delta_anthropic:
  "chunk_text (textChunk_of Anthropic parsed) = text_delta Anthropic parsed"
proof (cases "parsed = JNull")
  case True
  then show ?thesis
    by (simp add: textChunk_of_def chunk_text_def text_delta_def member_of_def)
next
  case False
  let ?t = "member_of parsed (js ''type'')"
  let ?d = "member_of parsed (js ''delta'')"
  have 1: "get (Val parsed) (js ''type'') = Some (jsval_of ?t)" using False by (rule get_member)
  have 2: "get (Val parsed) (js ''delta'') = Some (jsval_of ?d)" using False by (rule get_member)
  have eq: "jsval_of ?t = Val (JString (js ''content_block_delta''))
            \<longleftrightarrow> ?t = Some (JString (js ''content_block_delta''))"
    by (cases ?t) (simp_all add: jsval_of_def)
  show ?thesis
  proof (cases "?t = Some (JString (js ''content_block_delta''))")
    case ne: False
    with eq have "jsval_of ?t \<noteq> Val (JString (js ''content_block_delta''))" by simp
    then have "textChunk_of Anthropic parsed = Some (Val (JString []))"
      by (simp add: textChunk_of_def 1)
    with ne show ?thesis by (simp add: chunk_text_def text_delta_def)
  next
    case True
    with eq have "jsval_of ?t = Val (JString (js ''content_block_delta''))" by simp
    then have tc: "textChunk_of Anthropic parsed = get (jsval_of ?d) (js ''text'')"
      by (simp add: textChunk_of_def 1 2)
    have "chunk_text (get (jsval_of ?d) (js ''text''))
          = string_of (Option.bind ?d (\<lambda>d. member_of d (js ''text'')))"
    proof (cases ?d)
      case None
      then show ?thesis by (simp add: jsval_of_def chunk_text_def string_of_def)
    next
      case (Some d)
      show ?thesis
      proof (cases "d = JNull")
        case True
        with Some show ?thesis
          by (simp add: jsval_of_def chunk_text_def string_of_def member_of_def)
      next
        case nn: False
        have "chunk_text (Some (jsval_of m)) = string_of m" for m
        proof (cases m)
          case None
          then show ?thesis by (simp add: jsval_of_def chunk_text_def string_of_def)
        next
          case (Some v)
          then show ?thesis by (cases v) (auto simp: jsval_of_def chunk_text_def string_of_def)
        qed
        with Some get_member [OF nn, of "js ''text''"] show ?thesis
          by (simp add: jsval_of_def)
      qed
    qed
    with tc True show ?thesis by (simp add: text_delta_def)
  qed
qed

lemma textChunk_delta:
  "chunk_text (textChunk_of provider parsed) = text_delta provider parsed"
  using textChunk_delta_other [of provider parsed] textChunk_delta_anthropic [of parsed]
  by (cases "provider = Anthropic") simp_all

lemma process_chunk:
  "(case tc of
      None \<Rightarrow> Continue st
    | Some textChunk \<Rightarrow>
        if truthy textChunk
        then (case textChunk of
                Val (JString text) \<Rightarrow> Continue (yield_clean text st)
              | _ \<Rightarrow> Continue st)
        else Continue st)
   = Continue (case chunk_text tc of None \<Rightarrow> st | Some text \<Rightarrow> yield_clean text st)"
  by (auto simp: chunk_text_def split: option.splits jsval.splits json.splits)

lemma process_line_delta:
  "process_line provider line st =
     (if is_done line then Stop st
      else Continue (case line_delta provider line of
                       None \<Rightarrow> st
                     | Some text \<Rightarrow> yield_clean text st))"
proof (cases "prefix (js ''data: '') line")
  case False
  then show ?thesis by (simp add: process_line_def is_done_def line_delta_def)
next
  case True
  show ?thesis
  proof (cases "is_done line")
    case True
    then show ?thesis by (simp add: process_line_def is_done_def)
  next
    case nd: False
    with True have t: "trim (drop 6 line) \<noteq> js ''[DONE]''" by (simp add: is_done_def)
    show ?thesis
    proof (cases "json_parse (drop 6 line)")
      case None
      with True nd t show ?thesis by (simp add: process_line_def line_delta_def Let_def)
    next
      case (Some parsed)
      have "process_line provider line st
            = Continue (case chunk_text (textChunk_of provider parsed) of
                          None \<Rightarrow> st | Some text \<Rightarrow> yield_clean text st)"
        using True t Some process_chunk [where tc = "textChunk_of provider parsed" and st = st]
        by (simp add: process_line_def Let_def)
      with True nd Some show ?thesis by (simp add: line_delta_def textChunk_delta)
    qed
  qed
qed

lemma process_lines_fold:
  "state_of (process_lines provider lines st) =
     fold yield_clean (List.map_filter (line_delta provider) (takeWhile (\<lambda>l. \<not> is_done l) lines)) st"
proof (induction lines arbitrary: st)
  case Nil
  show ?case by (simp add: state_of_def List.map_filter_simps)
next
  case (Cons line lines)
  show ?case
  proof (cases "is_done line")
    case True
    then show ?thesis by (simp add: process_line_delta state_of_def List.map_filter_simps)
  next
    case False
    then show ?thesis
      using Cons.IH
      by (cases "line_delta provider line") (simp_all add: process_line_delta List.map_filter_simps)
  qed
qed

lemma gemini_loop_fold:
  "gemini_loop (map Some texts) st = (False, fold yield_clean texts st)"
  by (induction texts arbitrary: st) simp_all

lemma read_loop_outcome:
  "fst (read_loop provider reads ending buffer st) = None
   \<or> fst (read_loop provider reads ending buffer st) = ending"
proof (induction reads arbitrary: buffer st)
  case Nil
  show ?case by simp
next
  case (Cons v reads)
  show ?case
    using Cons.IH
    by (cases "process_lines provider (butlast (split_nl (buffer @ v))) st")
       (simp_all add: Let_def)
qed

lemma split_nl_line: "10 \<notin> set line \<Longrightarrow> split_nl (line @ [10]) = [line, []]"
  by (induction line) auto

lemma read_loop_done:
  assumes "is_done line" "10 \<notin> set line"
  shows "read_loop provider ((line @ [10]) # reads) ending [] st = (None, st)"
proof -
  have "butlast (split_nl ([] @ line @ [10])) = [line]"
    using assms(2) by (simp add: split_nl_line)
  moreover have "process_lines provider [line] st = Stop st"
    using assms(1) by (simp add: process_line_delta)
  ultimately show ?thesis by (simp add: Let_def)
qed

lemma text_delta_event:
  "s \<noteq> [] \<Longrightarrow> text_delta provider (event_of provider s) = Some s"
  by (simp add: text_delta_def event_of_def openai_event_def anthropic_event_def member_of_def
        first_of_def string_of_def js_def)

lemma not_done_json:
  assumes "json_parse x = Some v"
  shows "\<not> is_done (js ''data: '' @ x)"
proof
  assume "is_done (js ''data: '' @ x)"
  then have "trim x = js ''[DONE]''" by (simp add: is_done_def js_def)
  with json_parse_trim [OF assms] have "json_parse (js ''[DONE]'') = Some v" by simp
  moreover have "json_parse (js ''[DONE]'') = None" by code_simp
  ultimately show False by simp
qed

lemma line_delta_event:
  assumes "json_parse x = Some (event_of provider s)" "s \<noteq> []"
  shows "line_delta provider (js ''data: '' @ x) = Some s"
proof -
  have "prefix (js ''data: '') (js ''data: '' @ x)" by simp
  moreover have "drop 6 (js ''data: '' @ x) = x" by (simp add: js_def)
  ultimately show ?thesis
    using not_done_json [OF assms(1)] assms text_delta_event [OF assms(2), of provider]
    by (simp add: line_delta_def)
qed

lemma split_nl_lines:
  "\<forall>l \<in> set ls. 10 \<notin> set l \<Longrightarrow> split_nl (concat (map (\<lambda>l. l @ [10]) ls)) = ls @ [[]]"
proof (induction ls)
  case Nil
  show ?case by simp
next
  case (Cons l ls)
  then have l: "10 \<notin> set l" and ih: "split_nl (concat (map (\<lambda>l. l @ [10]) ls)) = ls @ [[]]"
    by simp_all
  have "split_nl ((l @ [10]) @ concat (map (\<lambda>l. l @ [10]) ls))
        = butlast (split_nl (l @ [10])) @ split_nl (last (split_nl (l @ [10])) @ concat (map (\<lambda>l. l @ [10]) ls))"
    by (rule split_nl_append)
  with l ih show ?case by (simp add: split_nl_line)
qed

lemma cleanStreamChunk_plain: "96 \<notin> set s \<Longrightarrow> cleanStreamChunk s b = s"
proof -
  assume a: "96 \<notin> set s"
  have "set (dropWhile is_space s) \<subseteq> set s" by (rule set_dropWhileD [THEN subsetI] ) simp
  with a have "\<not> prefix [96] (dropWhile is_space s)" by (auto simp: prefix_def)
  then have "replace_leading_fence (replace_leading_html s) = s"
    by (rule replace_leading_no_backtick)
  moreover have "replace_trailing s = s"
    using no_backtick_no_fence [OF a] by (rule replace_trailing_no_fence)
  ultimately show ?thesis by (simp add: cleanStreamChunk_def)
qed

lemma events_decoded:
  assumes ev: "\<forall>(x, s) \<in> set evs. 10 \<notin> set x \<and> s \<noteq> [] \<and> json_parse x = Some (event_of provider s)"
  shows "butlast (split_nl (concat (map (\<lambda>(x, s). js ''data: '' @ x @ [10]) evs)))
         = map (\<lambda>(x, s). js ''data: '' @ x) evs"
    and "takeWhile (\<lambda>l. \<not> is_done l) (map (\<lambda>(x, s). js ''data: '' @ x) evs)
         = map (\<lambda>(x, s). js ''data: '' @ x) evs"
    and "List.map_filter (line_delta provider) (map (\<lambda>(x, s). js ''data: '' @ x) evs) = map snd evs"
proof -
  let ?ls = "map (\<lambda>(x, s). js ''data: '' @ x) evs"
  have m: "map (\<lambda>(x, s). js ''data: '' @ x @ [10]) evs = map (\<lambda>l. l @ [10]) ?ls"
    by (simp add: case_prod_beta)
  have nl: "\<forall>l \<in> set ?ls. 10 \<notin> set l" using ev by (auto simp: js_def)
  have "split_nl (concat (map (\<lambda>l. l @ [10]) ?ls)) = ?ls @ [[]]"
    using nl by (rule split_nl_lines)
  then show "butlast (split_nl (concat (map (\<lambda>(x, s). js ''data: '' @ x @ [10]) evs))) = ?ls"
    unfolding m by simp
  have "\<forall>l \<in> set ?ls. \<not> is_done l" using ev not_done_json by fastforce
  then show "takeWhile (\<lambda>l. \<not> is_done l) ?ls = ?ls" by (simp add: takeWhile_eq_all_conv)
  show "List.map_filter (line_delta provider) ?ls = map snd evs"
    using ev
  proof (induction evs)
    case Nil
    show ?case by (simp add: List.map_filter_simps)
  next
    case (Cons e evs)
    obtain x s where e: "e = (x, s)" by (cases e)
    with Cons.prems have "json_parse x = Some (event_of provider s)" "s \<noteq> []" by simp_all
    then have "line_delta provider (js ''data: '' @ x) = Some s" by (rule line_delta_event)
    moreover from Cons have "List.map_filter (line_delta provider)
        (map (\<lambda>(x, s). js ''data: '' @ x) evs) = map snd evs" by simp
    ultimately show ?case using e by (simp add: List.map_filter_simps)
  qed
qed

text \<open>
  C8. For every sequence of reads, the chunks yielded by the decoder are those obtained by
  passing, in order, the text deltas of the complete lines of the concatenated reads that
  come before the first end sentinel through the cleaner: so the reads may cut a line
  anywhere (only the concatenation counts, and the unfinished last line is never
  processed), lines that are not data lines and data lines with malformed JSON contribute
  nothing, and nothing behind the sentinel is looked at. The decoder itself never fails: it
  ends normally or with the error of a failing read. A line without the data prefix and a
  data line with malformed JSON leave the state as it is; a sentinel line returns, also
  when a later read would fail. A data line whose JSON is an envelope with the delta \<open>s\<close>
  passes \<open>s\<close> to the cleaner, and a stream of such lines, however it is cut into reads,
  passes their deltas to the cleaner in the order of the lines.
\<close>

theorem read_loop_decodes:
  "snd (read_loop provider reads ending [] st)
     = fold yield_clean
         (List.map_filter (line_delta provider)
            (takeWhile (\<lambda>l. \<not> is_done l) (butlast (split_nl (concat reads))))) st
   \<and> snd (read_loop provider reads ending [] st)
       = snd (read_loop provider [concat reads] ending [] st)
   \<and> (fst (read_loop provider reads ending [] st) = None
        \<or> fst (read_loop provider reads ending [] st) = ending)
   \<and> (\<not> prefix (js ''data: '') line
        \<longrightarrow> process_line provider line st = Continue st \<and> line_delta provider line = None)
   \<and> (prefix (js ''data: '') line \<and> trim (drop 6 line) \<noteq> js ''[DONE]''
          \<and> json_parse (drop 6 line) = None
        \<longrightarrow> process_line provider line st = Continue st \<and> line_delta provider line = None)
   \<and> (prefix (js ''data: '') line \<and> trim (drop 6 line) = js ''[DONE]''
        \<longrightarrow> process_line provider line st = Stop st
            \<and> process_lines provider (line # lines) st = Stop st
            \<and> (10 \<notin> set line
                 \<longrightarrow> read_loop provider ((line @ [10]) # reads) ending [] st = (None, st)))
   \<and> (json_parse x = Some (event_of provider s) \<and> s \<noteq> []
        \<longrightarrow> process_line provider (js ''data: '' @ x) st = Continue (yield_clean s st)
            \<and> (96 \<notin> set s
                 \<longrightarrow> yielded (yield_clean s st) = yielded st @ [s]))
   \<and> ((\<forall>(x, s) \<in> set evs. 10 \<notin> set x \<and> s \<noteq> [] \<and> json_parse x = Some (event_of provider s))
        \<and> concat reads = concat (map (\<lambda>(x, s). js ''data: '' @ x @ [10]) evs)
        \<longrightarrow> snd (read_loop provider reads ending [] st) = fold yield_clean (map snd evs) st)"
proof -
  have c1: "snd (read_loop provider reads ending [] st)
     = fold yield_clean
         (List.map_filter (line_delta provider)
            (takeWhile (\<lambda>l. \<not> is_done l) (butlast (split_nl (concat reads))))) st"
    using read_loop_lines [of "[]" provider reads ending st]
    by (simp add: process_lines_fold)
  have "snd (read_loop provider [concat reads] ending [] st)
     = fold yield_clean
         (List.map_filter (line_delta provider)
            (takeWhile (\<lambda>l. \<not> is_done l) (butlast (split_nl (concat reads))))) st"
    using read_loop_lines [of "[]" provider "[concat reads]" ending st]
    by (simp add: process_lines_fold)
  with c1 have c2: "snd (read_loop provider reads ending [] st)
       = snd (read_loop provider [concat reads] ending [] st)"
    by simp
  have c3: "fst (read_loop provider reads ending [] st) = None
        \<or> fst (read_loop provider reads ending [] st) = ending"
    by (rule read_loop_outcome)
  have c4: "\<not> prefix (js ''data: '') line
        \<longrightarrow> process_line provider line st = Continue st \<and> line_delta provider line = None"
    by (simp add: process_line_def line_delta_def)
  have c5: "prefix (js ''data: '') line \<and> trim (drop 6 line) \<noteq> js ''[DONE]''
          \<and> json_parse (drop 6 line) = None
        \<longrightarrow> process_line provider line st = Continue st \<and> line_delta provider line = None"
    by (simp add: process_line_def line_delta_def Let_def)
  have c6: "prefix (js ''data: '') line \<and> trim (drop 6 line) = js ''[DONE]''
        \<longrightarrow> process_line provider line st = Stop st
            \<and> process_lines provider (line # lines) st = Stop st
            \<and> (10 \<notin> set line
                 \<longrightarrow> read_loop provider ((line @ [10]) # reads) ending [] st = (None, st))"
    using read_loop_done [of line provider reads ending st]
    by (simp add: process_line_delta is_done_def)
  have c7: "json_parse x = Some (event_of provider s) \<and> s \<noteq> []
        \<longrightarrow> process_line provider (js ''data: '' @ x) st = Continue (yield_clean s st)
            \<and> (96 \<notin> set s
                 \<longrightarrow> yielded (yield_clean s st) = yielded st @ [s])"
  proof (intro impI conjI)
    assume a: "json_parse x = Some (event_of provider s) \<and> s \<noteq> []"
    then have "line_delta provider (js ''data: '' @ x) = Some s"
      using line_delta_event by blast
    moreover from a have "\<not> is_done (js ''data: '' @ x)" using not_done_json by blast
    ultimately show "process_line provider (js ''data: '' @ x) st = Continue (yield_clean s st)"
      by (simp add: process_line_delta)
    assume "96 \<notin> set s"
    then have "cleanStreamChunk s (isFirstChunk st) = s" by (rule cleanStreamChunk_plain)
    with a show "yielded (yield_clean s st) = yielded st @ [s]"
      by (simp add: yield_clean_def)
  qed
  have c8: "(\<forall>(x, s) \<in> set evs. 10 \<notin> set x \<and> s \<noteq> [] \<and> json_parse x = Some (event_of provider s))
        \<and> concat reads = concat (map (\<lambda>(x, s). js ''data: '' @ x @ [10]) evs)
        \<longrightarrow> snd (read_loop provider reads ending [] st) = fold yield_clean (map snd evs) st"
  proof
    assume a: "(\<forall>(x, s) \<in> set evs. 10 \<notin> set x \<and> s \<noteq> [] \<and> json_parse x = Some (event_of provider s))
        \<and> concat reads = concat (map (\<lambda>(x, s). js ''data: '' @ x @ [10]) evs)"
    then have ev: "\<forall>(x, s) \<in> set evs. 10 \<notin> set x \<and> s \<noteq> [] \<and> json_parse x = Some (event_of provider s)"
      and cr: "concat reads = concat (map (\<lambda>(x, s). js ''data: '' @ x @ [10]) evs)"
      by simp_all
    from c1 cr events_decoded [OF ev]
    show "snd (read_loop provider reads ending [] st) = fold yield_clean (map snd evs) st"
      by simp
  qed
  show ?thesis
    apply (intro conjI)
    subgoal by (rule c1)
    subgoal by (rule c2)
    subgoal by (rule c3)
    subgoal by (rule c4)
    subgoal by (rule c5)
    subgoal by (rule c6)
    subgoal by (rule c7)
    subgoal by (rule c8)
    done
qed

lemma yield_clean_plain:
  "96 \<notin> set s \<Longrightarrow> s \<noteq> [] \<Longrightarrow>
   yield_clean s st = st\<lparr>yielded := yielded st @ [s], isFirstChunk := False\<rparr>"
  by (simp add: yield_clean_def cleanStreamChunk_plain)

theorem read_loop_decodes_witness:
  "\<not> prefix (js ''data: '') (js ''event: ping'')
   \<and> process_line OpenAI (js ''event: ping'') \<lparr>isFirstChunk = True, yielded = []\<rparr>
       = Continue \<lparr>isFirstChunk = True, yielded = []\<rparr>
   \<and> prefix (js ''data: '') (js ''data: {oops'') \<and> trim (drop 6 (js ''data: {oops'')) \<noteq> js ''[DONE]''
   \<and> json_parse (drop 6 (js ''data: {oops'')) = None
   \<and> process_line OpenAI (js ''data: {oops'') \<lparr>isFirstChunk = True, yielded = []\<rparr>
       = Continue \<lparr>isFirstChunk = True, yielded = []\<rparr>
   \<and> prefix (js ''data: '') (js ''data: [DONE] '') \<and> trim (drop 6 (js ''data: [DONE] '')) = js ''[DONE]''
   \<and> 10 \<notin> set (js ''data: [DONE] '')
   \<and> read_loop OpenAI [js ''data: [DONE] '' @ [10], js ''data: {}'' @ [10]]
        (Some \<lparr>status = None, message = None\<rparr>) [] \<lparr>isFirstChunk = True, yielded = []\<rparr>
       = (None, \<lparr>isFirstChunk = True, yielded = []\<rparr>)
   \<and> json_parse (js ''{\"choices\":[{\"delta\":{\"content\":\"Hel\"}}]}'')
       = Some (event_of OpenAI (js ''Hel''))
   \<and> json_parse (js ''{\"choices\":[{\"delta\":{\"content\":\"lo\"}}]}'')
       = Some (event_of OpenAI (js ''lo''))
   \<and> process_line OpenAI (js ''data: '' @ js ''{\"choices\":[{\"delta\":{\"content\":\"Hel\"}}]}'')
        \<lparr>isFirstChunk = True, yielded = []\<rparr>
       = Continue \<lparr>isFirstChunk = False, yielded = [js ''Hel'']\<rparr>
   \<and> snd (read_loop OpenAI
        [js ''data: {\"choices\":[{\"delta\":{\"content\":\"Hel\"}}]}'' @ [10] @ js ''da'',
         js ''ta: {\"choices\":[{\"delta\":{\"content\":\"lo\"}}]}'' @ [10]]
        None [] \<lparr>isFirstChunk = True, yielded = []\<rparr>)
       = \<lparr>isFirstChunk = False, yielded = [js ''Hel'', js ''lo'']\<rparr>
   \<and> json_parse (js ''{\"type\":\"content_block_delta\",\"delta\":{\"text\":\"Hi\"}}'')
       = Some (event_of Anthropic (js ''Hi''))
   \<and> process_line Anthropic
        (js ''data: '' @ js ''{\"type\":\"content_block_delta\",\"delta\":{\"text\":\"Hi\"}}'')
        \<lparr>isFirstChunk = True, yielded = []\<rparr>
       = Continue \<lparr>isFirstChunk = False, yielded = [js ''Hi'']\<rparr>"
proof -
  let ?st = "\<lparr>isFirstChunk = True, yielded = []\<rparr>"
  let ?x1 = "js ''{\"choices\":[{\"delta\":{\"content\":\"Hel\"}}]}''"
  let ?x2 = "js ''{\"choices\":[{\"delta\":{\"content\":\"lo\"}}]}''"
  let ?y = "js ''{\"type\":\"content_block_delta\",\"delta\":{\"text\":\"Hi\"}}''"
  let ?reads = "[js ''data: {\"choices\":[{\"delta\":{\"content\":\"Hel\"}}]}'' @ [10] @ js ''da'',
         js ''ta: {\"choices\":[{\"delta\":{\"content\":\"lo\"}}]}'' @ [10]]"
  let ?evs = "[(?x1, js ''Hel''), (?x2, js ''lo'')]"
  have h1: "\<not> prefix (js ''data: '') (js ''event: ping'')" by (simp add: js_def)
  have h2: "prefix (js ''data: '') (js ''data: {oops'')" by (simp add: js_def)
  have h3: "trim (drop 6 (js ''data: {oops'')) \<noteq> js ''[DONE]''"
    by (simp add: js_def trim_def is_space_def)
  have d: "drop 6 (js ''data: {oops'') = js ''{oops''" by (simp add: js_def)
  have "json_parse (js ''{oops'') = None" by code_simp
  with d have h4: "json_parse (drop 6 (js ''data: {oops'')) = None" by simp
  have h5: "prefix (js ''data: '') (js ''data: [DONE] '')" by (simp add: js_def)
  have h6: "trim (drop 6 (js ''data: [DONE] '')) = js ''[DONE]''"
    by (simp add: js_def trim_def is_space_def)
  have h7: "10 \<notin> set (js ''data: [DONE] '')" by (simp add: js_def)
  from read_loop_decodes [of OpenAI "[]" None ?st "js ''event: ping''"] h1
  have a: "process_line OpenAI (js ''event: ping'') ?st = Continue ?st" by blast
  from read_loop_decodes [of OpenAI "[]" None ?st "js ''data: {oops''"] h2 h3 h4
  have b: "process_line OpenAI (js ''data: {oops'') ?st = Continue ?st" by blast
  from read_loop_decodes [of OpenAI "[js ''data: {}'' @ [10]]"
         "Some \<lparr>status = None, message = None\<rparr>" ?st "js ''data: [DONE] ''"] h5 h6 h7
  have c: "read_loop OpenAI [js ''data: [DONE] '' @ [10], js ''data: {}'' @ [10]]
        (Some \<lparr>status = None, message = None\<rparr>) [] ?st = (None, ?st)"
    by blast
  have p1: "json_parse ?x1 = Some (event_of OpenAI (js ''Hel''))" by code_simp
  have p2: "json_parse ?x2 = Some (event_of OpenAI (js ''lo''))" by code_simp
  have p3: "json_parse ?y = Some (event_of Anthropic (js ''Hi''))" by code_simp
  have n1: "js ''Hel'' \<noteq> []" "js ''lo'' \<noteq> []" "js ''Hi'' \<noteq> []" by (simp_all add: js_def)
  have b1: "96 \<notin> set (js ''Hel'')" "96 \<notin> set (js ''lo'')" "96 \<notin> set (js ''Hi'')"
    by (simp_all add: js_def)
  have y1: "yield_clean (js ''Hel'') ?st = \<lparr>isFirstChunk = False, yielded = [js ''Hel'']\<rparr>"
    using b1(1) n1(1) by (simp add: yield_clean_plain)
  have y2: "yield_clean (js ''lo'') \<lparr>isFirstChunk = False, yielded = [js ''Hel'']\<rparr>
            = \<lparr>isFirstChunk = False, yielded = [js ''Hel'', js ''lo'']\<rparr>"
    using b1(2) n1(2) by (simp add: yield_clean_plain)
  have y3: "yield_clean (js ''Hi'') ?st = \<lparr>isFirstChunk = False, yielded = [js ''Hi'']\<rparr>"
    using b1(3) n1(3) by (simp add: yield_clean_plain)
  from read_loop_decodes [of OpenAI "[]" None ?st "[]" "[]" ?x1 "js ''Hel''"] p1 n1(1)
  have "process_line OpenAI (js ''data: '' @ ?x1) ?st = Continue (yield_clean (js ''Hel'') ?st)"
    by blast
  with y1 have e: "process_line OpenAI (js ''data: '' @ ?x1) ?st
                   = Continue \<lparr>isFirstChunk = False, yielded = [js ''Hel'']\<rparr>" by simp
  from read_loop_decodes [of Anthropic "[]" None ?st "[]" "[]" ?y "js ''Hi''"] p3 n1(3)
  have "process_line Anthropic (js ''data: '' @ ?y) ?st = Continue (yield_clean (js ''Hi'') ?st)"
    by blast
  with y3 have f: "process_line Anthropic (js ''data: '' @ ?y) ?st
                   = Continue \<lparr>isFirstChunk = False, yielded = [js ''Hi'']\<rparr>" by simp
  have nl: "10 \<notin> set ?x1" "10 \<notin> set ?x2" by (simp_all add: js_def)
  have ev: "\<forall>(x, s) \<in> set ?evs. 10 \<notin> set x \<and> s \<noteq> [] \<and> json_parse x = Some (event_of OpenAI s)"
    using nl n1 p1 p2 by simp
  have cr: "concat ?reads = concat (map (\<lambda>(x, s). js ''data: '' @ x @ [10]) ?evs)"
    by (simp add: js_def)
  from read_loop_decodes [of OpenAI ?reads None ?st "[]" "[]" "[]" "[]" ?evs] ev cr
  have "snd (read_loop OpenAI ?reads None [] ?st) = fold yield_clean (map snd ?evs) ?st"
    by blast
  with y1 y2 have g: "snd (read_loop OpenAI ?reads None [] ?st)
                      = \<lparr>isFirstChunk = False, yielded = [js ''Hel'', js ''lo'']\<rparr>"
    by simp
  show ?thesis
    apply (intro conjI)
    subgoal by (rule h1)
    subgoal by (rule a)
    subgoal by (rule h2)
    subgoal by (rule h3)
    subgoal by (rule h4)
    subgoal by (rule b)
    subgoal by (rule h5)
    subgoal by (rule h6)
    subgoal by (rule h7)
    subgoal by (rule c)
    subgoal by (rule p1)
    subgoal by (rule p2)
    subgoal by (rule e)
    subgoal by (rule g)
    subgoal by (rule p3)
    subgoal by (rule f)
    done
qed

section \<open>Scoring one batch\<close>

text \<open>The two errors of \<^verbatim>\<open>parseJsonResponse\<close> as error objects.\<close>

definition parse_error :: "engine \<Rightarrow> parse_failure \<Rightarrow> js_error" where
  "parse_error eng failure =
     (case failure of
        ExtractedInvalid m \<Rightarrow>
          \<lparr>status = None,
           message = Some (js ''Failed to parse JSON. Extracted structure invalid: SyntaxError: ''
                           @ eng (JsonSyntax m))\<rparr>
      | NoStructure p \<Rightarrow>
          \<lparr>status = None,
           message = Some (js ''Failed to parse JSON response. Raw text: \"'' @ p @ js ''...\"'')\<rparr>)"

text \<open>
  \<^verbatim>\<open>parseJsonResponse\<close> applied to a value that need not be a string (the types of the
  program are erased at run time): on \<^verbatim>\<open>undefined\<close> and \<^verbatim>\<open>null\<close> reading \<^verbatim>\<open>replace\<close>
  throws inside the \<^verbatim>\<open>try\<close> and reading \<^verbatim>\<open>match\<close> throws again in the handler; on any other
  value that is not a string, \<^verbatim>\<open>match\<close> is not a function.
\<close>

fun parse_value :: "engine \<Rightarrow> jsval \<Rightarrow> js_error + json" where
  "parse_value eng (Val (JString text)) =
     (case parseJsonResponse text of
        Inl failure \<Rightarrow> Inl (parse_error eng failure)
      | Inr v \<Rightarrow> Inr v)"
| "parse_value eng Undefined = Inl (engine_error eng (PropertyOfNullish (js ''match'')))"
| "parse_value eng (Val JNull) = Inl (engine_error eng (PropertyOfNullish (js ''match'')))"
| "parse_value eng (Val v) = Inl (engine_error eng (NotAFunction (js ''match'')))"

text \<open>\<^verbatim>\<open>parsed.posts || []\<close>.\<close>

definition posts_or_empty :: "engine \<Rightarrow> json \<Rightarrow> js_error + json" where
  "posts_or_empty eng parsed =
     (case get (Val parsed) (js ''posts'') of
        None \<Rightarrow> Inl (engine_error eng (PropertyOfNullish (js ''posts'')))
      | Some x \<Rightarrow> Inr (case x of Val v \<Rightarrow> if truthy x then v else JArray []
                            | Undefined \<Rightarrow> JArray []))"

text \<open>
  \<^verbatim>\<open>data.content[0].text\<close> for Anthropic, \<^verbatim>\<open>data.choices[0].message.content\<close> for the others.
\<close>

definition raw_content :: "engine \<Rightarrow> AiProvider \<Rightarrow> json \<Rightarrow> js_error + jsval" where
  "raw_content eng provider data =
     (if provider = Anthropic then
        (case get (Val data) (js ''content'') of
           None \<Rightarrow> Inl (engine_error eng (PropertyOfNullish (js ''content'')))
         | Some content \<Rightarrow>
             (case get0 content of
                None \<Rightarrow> Inl (engine_error eng (PropertyOfNullish (js ''0'')))
              | Some block \<Rightarrow>
                  (case get block (js ''text'') of
                     None \<Rightarrow> Inl (engine_error eng (PropertyOfNullish (js ''text'')))
                   | Some text \<Rightarrow> Inr text)))
      else
        (case get (Val data) (js ''choices'') of
           None \<Rightarrow> Inl (engine_error eng (PropertyOfNullish (js ''choices'')))
         | Some choices \<Rightarrow>
             (case get0 choices of
                None \<Rightarrow> Inl (engine_error eng (PropertyOfNullish (js ''0'')))
              | Some choice \<Rightarrow>
                  (case get choice (js ''message'') of
                     None \<Rightarrow> Inl (engine_error eng (PropertyOfNullish (js ''message'')))
                   | Some msg \<Rightarrow>
                       (case get msg (js ''content'') of
                          None \<Rightarrow> Inl (engine_error eng (PropertyOfNullish (js ''content'')))
                        | Some content \<Rightarrow> Inr content)))))"

text \<open>The scores in the text of a Gemini response.\<close>

definition scores_of_text :: "engine \<Rightarrow> jsstring option \<Rightarrow> js_error + json" where
  "scores_of_text eng text =
     (case parse_value eng (case text of None \<Rightarrow> Undefined | Some t \<Rightarrow> Val (JString t)) of
        Inl e \<Rightarrow> Inl e
      | Inr parsed \<Rightarrow> posts_or_empty eng parsed)"

text \<open>The scores in the response of \<^verbatim>\<open>fetch\<close>.\<close>

definition scores_of_response :: "engine \<Rightarrow> AiProvider \<Rightarrow> http_response \<Rightarrow> js_error + json" where
  "scores_of_response eng provider response =
     (if \<not> ok response
      then Inl \<lparr>status = None,
                message = Some (js ''API Error: '' @ show_nat (resp_status response))\<rparr>
      else
        (case json_parse (resp_body response) of
           None \<Rightarrow> Inl (engine_error eng (JsonSyntax (resp_body response)))
         | Some data \<Rightarrow>
             (case raw_content eng provider data of
                Inl e \<Rightarrow> Inl e
              | Inr rawContent \<Rightarrow>
                  (case parse_value eng rawContent of
                     Inl e \<Rightarrow> Inl e
                   | Inr parsedResult \<Rightarrow> posts_or_empty eng parsedResult))))"

text \<open>
  \<^verbatim>\<open>onProgress\<close> is the callback of the caller; it records its argument and returns.
\<close>

definition onProgress :: "json \<Rightarrow> world \<Rightarrow> world" where
  "onProgress scoredPosts w = w\<lparr>progress := progress w @ [scoredPosts]\<rparr>"

text \<open>
  The operation that \<^verbatim>\<open>processBatch\<close> hands to \<^verbatim>\<open>withRetry\<close>, for the worker \<open>k\<close>. The batch
  goes into the prompt only.
\<close>

definition score_attempt ::
  "engine \<Rightarrow> network \<Rightarrow> AiProvider \<Rightarrow> jsstring \<Rightarrow> jsstring \<Rightarrow> nat \<Rightarrow> WordPressPost list
   \<Rightarrow> unit io" where
  "score_attempt eng net provider apiKey model k batch w =
     (if provider = Gemini then
        (case scripted (Worker k) (sdk_generateContent net (Worker k)) w of
           (Inl e, w') \<Rightarrow> (Inl e, w')
         | (Inr text, w') \<Rightarrow>
             (case scores_of_text eng text of
                Inl e \<Rightarrow> (Inl e, w')
              | Inr batchScores \<Rightarrow> (Inr (), onProgress batchScores w')))
      else
        (case getProviderConfig provider apiKey of
           Inl e \<Rightarrow> (Inl e, w)
         | Inr config \<Rightarrow>
             (case scripted (Worker k) (fetch net (Worker k)) w of
                (Inl e, w') \<Rightarrow> (Inl e, w')
              | (Inr response, w') \<Rightarrow>
                  (case scores_of_response eng provider response of
                     Inl e \<Rightarrow> (Inl e, w')
                   | Inr batchScores \<Rightarrow> (Inr (), onProgress batchScores w')))))"

text \<open>\<^verbatim>\<open>processBatch\<close>: the failure of the retried operation is logged, not thrown.\<close>

definition processBatch ::
  "engine \<Rightarrow> network \<Rightarrow> AiProvider \<Rightarrow> jsstring \<Rightarrow> jsstring \<Rightarrow> nat \<Rightarrow> WordPressPost list
   \<Rightarrow> unit io" where
  "processBatch eng net provider apiKey model k batch w =
     (case withRetry_default (score_attempt eng net provider apiKey model k batch) w of
        (Inr u, w') \<Rightarrow> (Inr (), w')
      | (Inl error, w') \<Rightarrow> (Inr (), w'\<lparr>console := console w' @ [BatchFailed error]\<rparr>))"


subsection \<open>Properties of a batch\<close>





lemma processBatch_resolves:
  "fst (processBatch eng net provider apiKey model k batch w) = Inr ()"
  by (simp add: processBatch_def split: prod.splits sum.splits)

text \<open>Whether the retried operation of a batch succeeds from the world \<open>w\<close>.\<close>

definition batch_succeeds ::
  "engine \<Rightarrow> network \<Rightarrow> AiProvider \<Rightarrow> jsstring \<Rightarrow> jsstring \<Rightarrow> nat \<Rightarrow> WordPressPost list
   \<Rightarrow> world \<Rightarrow> bool" where
  "batch_succeeds eng net provider apiKey model k batch w \<longleftrightarrow>
     (\<exists>u. fst (withRetry_default (score_attempt eng net provider apiKey model k batch) w) = Inr u)"



section \<open>\<^verbatim>\<open>getOpportunityScores\<close>: the bounded pool of workers\<close>

text \<open>The arguments of one call, and the environment it runs in.\<close>

record scoring =
  eng :: engine
  net :: network
  provider :: AiProvider
  apiKey :: jsstring
  model :: jsstring
  posts :: "WordPressPost list"

text \<open>
  The state of the loop. A worker is named by the index of its batch in \<^verbatim>\<open>postBatches\<close>.
  \<open>queue\<close> and \<open>activeWorkers\<close> are the variables of the program; \<open>finished\<close> records, for the
  statements below, the workers that have settled, in the order in which they did, each
  with whether its retried operation succeeded; \<open>rejected\<close> is the rejection of the promise
  returned by \<^verbatim>\<open>getOpportunityScores\<close>, which a rejected worker would cause through
  \<^verbatim>\<open>Promise.race\<close>.
\<close>

record run_state =
  queue :: "nat list"
  activeWorkers :: "nat list"
  finished :: "(nat \<times> bool) list"
  world :: world
  rejected :: "js_error option"

definition initial :: "scoring \<Rightarrow> world \<Rightarrow> run_state" where
  "initial P w0 =
     \<lparr>queue = [0 ..< length (postBatches (posts P))], activeWorkers = [], finished = [],
      world = w0, rejected = None\<rparr>"

definition run_batch :: "scoring \<Rightarrow> nat \<Rightarrow> unit io" where
  "run_batch P k = processBatch (eng P) (net P) (provider P) (apiKey P) (model P) k
                     (postBatches (posts P) ! k)"

definition succeeds :: "scoring \<Rightarrow> nat \<Rightarrow> world \<Rightarrow> bool" where
  "succeeds P k = batch_succeeds (eng P) (net P) (provider P) (apiKey P) (model P) k
                    (postBatches (posts P) ! k)"

text \<open>
  The steps of an execution. \<open>start\<close> is one round of the inner loop: while the queue is not
  empty and fewer than \<^verbatim>\<open>MAX_CONCURRENT_REQUESTS\<close> workers are active, the first batch of the
  queue is taken and its worker is added to the active set. \<open>finish\<close> is a worker settling
  while the loop waits in \<^verbatim>\<open>Promise.race\<close>: its effects have happened and it deletes itself
  from the active set. The program is single-threaded, so the effects of the workers
  interleave only at their network calls; the call of \<^verbatim>\<open>onProgress\<close> or the error line is the
  last effect of a worker, and the order of these between workers is the order in which the
  workers finish. The loop ends when no step is possible: with an empty queue and no active
  worker.
\<close>

inductive step :: "scoring \<Rightarrow> run_state \<Rightarrow> run_state \<Rightarrow> bool" for P where
  start:
    "queue s = k # q \<Longrightarrow> length (activeWorkers s) < MAX_CONCURRENT_REQUESTS \<Longrightarrow>
     rejected s = None \<Longrightarrow>
     step P s (s\<lparr>queue := q, activeWorkers := activeWorkers s @ [k]\<rparr>)"
| finish:
    "k \<in> set (activeWorkers s) \<Longrightarrow> run_batch P k (world s) = (r, w') \<Longrightarrow>
     step P s (s\<lparr>activeWorkers := removeAll k (activeWorkers s),
                 finished := finished s @ [(k, succeeds P k (world s))],
                 world := w',
                 rejected := (case r of Inl e \<Rightarrow> Some e | Inr u \<Rightarrow> rejected s)\<rparr>)"

definition reachable :: "scoring \<Rightarrow> world \<Rightarrow> run_state \<Rightarrow> bool" where
  "reachable P w0 s \<longleftrightarrow> (step P)\<^sup>*\<^sup>* (initial P w0) s"

subsection \<open>Invariants of the pool\<close>

definition pool_inv :: "scoring \<Rightarrow> run_state \<Rightarrow> bool" where
  "pool_inv P s \<longleftrightarrow>
     length (activeWorkers s) \<le> MAX_CONCURRENT_REQUESTS
     \<and> rejected s = None
     \<and> (\<exists>j \<le> length (postBatches (posts P)).
           queue s = [j ..< length (postBatches (posts P))]
           \<and> distinct (activeWorkers s @ map fst (finished s))
           \<and> set (activeWorkers s @ map fst (finished s)) = {0 ..< j})"

lemma pool_inv_initial: "pool_inv P (initial P w0)"
  by (auto simp: pool_inv_def initial_def)

lemma run_batch_resolves: "run_batch P k w = (r, w') \<Longrightarrow> r = Inr ()"
  using processBatch_resolves [of "eng P" "net P" "provider P" "apiKey P" "model P" k
          "postBatches (posts P) ! k" w]
  by (simp add: run_batch_def)

lemma pool_inv_step:
  assumes "step P s s'" "pool_inv P s"
  shows "pool_inv P s'"
  using assms
proof (induction rule: step.induct)
  case (start s k q)
  let ?n = "length (postBatches (posts P))"
  from start.prems obtain j where j: "j \<le> ?n" "queue s = [j ..< ?n]"
    "distinct (activeWorkers s @ map fst (finished s))"
    "set (activeWorkers s @ map fst (finished s)) = {0 ..< j}"
    by (auto simp: pool_inv_def)
  from j(2) start.hyps(1) have "[j ..< ?n] = k # q" by simp
  then have jn: "j < ?n" and k: "k = j" and q: "q = [Suc j ..< ?n]"
    using upt_eq_Cons_conv [of j ?n k q] by auto
  have d: "distinct ((activeWorkers s @ [k]) @ map fst (finished s))"
    using j(3,4) k by auto
  have e: "set ((activeWorkers s @ [k]) @ map fst (finished s)) = {0 ..< Suc j}"
    using j(4) k by auto
  show ?case
    unfolding pool_inv_def
    using start.hyps(2,3) jn q d e
    by (auto simp: MAX_CONCURRENT_REQUESTS_def intro!: exI [of _ "Suc j"])
next
  case (finish k s r w')
  let ?n = "length (postBatches (posts P))"
  from finish.prems obtain j where j: "j \<le> ?n" "queue s = [j ..< ?n]"
    "distinct (activeWorkers s @ map fst (finished s))"
    "set (activeWorkers s @ map fst (finished s)) = {0 ..< j}"
    by (auto simp: pool_inv_def)
  have r: "r = Inr ()" using finish.hyps(2) by (rule run_batch_resolves)
  from finish.prems have a6: "length (activeWorkers s) \<le> MAX_CONCURRENT_REQUESTS"
    and rej: "rejected s = None"
    by (auto simp: pool_inv_def)
  have "length (removeAll k (activeWorkers s)) \<le> length (activeWorkers s)"
    by (simp add: length_removeAll_less_eq)
  with a6 have l: "length (removeAll k (activeWorkers s)) \<le> MAX_CONCURRENT_REQUESTS"
    by (rule order_trans [rotated])
  have d: "distinct (removeAll k (activeWorkers s) @ map fst (finished s @ [(k, b)]))" for b
    using j(3) finish.hyps(1) by (auto simp: distinct_removeAll)
  have e: "set (removeAll k (activeWorkers s) @ map fst (finished s @ [(k, b)])) = {0 ..< j}" for b
    using j(4) finish.hyps(1) by auto
  let ?s' = "s\<lparr>activeWorkers := removeAll k (activeWorkers s),
                 finished := finished s @ [(k, succeeds P k (world s))],
                 world := w',
                 rejected := (case r of Inl e \<Rightarrow> Some e | Inr u \<Rightarrow> rejected s)\<rparr>"
  have 1: "length (activeWorkers ?s') \<le> MAX_CONCURRENT_REQUESTS" using l by simp
  have 2: "rejected ?s' = None" using r rej by simp
  have 3: "j \<le> ?n \<and> queue ?s' = [j ..< ?n]
           \<and> distinct (activeWorkers ?s' @ map fst (finished ?s'))
           \<and> set (activeWorkers ?s' @ map fst (finished ?s')) = {0 ..< j}"
    using j(1,2) d [of "succeeds P k (world s)"] e [of "succeeds P k (world s)"] by simp
  show ?case
    unfolding pool_inv_def using 1 2 3 by blast
qed

lemma reachable_pool_inv: "reachable P w0 s \<Longrightarrow> pool_inv P s"
  unfolding reachable_def
  by (induction rule: rtranclp_induct) (auto intro: pool_inv_initial pool_inv_step)

lemma step_measure:
  "step P s s' \<Longrightarrow>
   2 * length (queue s') + length (activeWorkers s') < 2 * length (queue s) + length (activeWorkers s)"
proof (induction rule: step.induct)
  case (start s k q)
  then show ?case by simp
next
  case (finish k s r w')
  then have "length (removeAll k (activeWorkers s)) < length (activeWorkers s)"
    by (simp add: length_removeAll_less)
  then show ?case by simp
qed

lemma step_wf: "wf {(s', s). step P s s'}"
proof (rule wf_subset)
  show "wf (measure (\<lambda>s. 2 * length (queue s) + length (activeWorkers s)))" by simp
  show "{(s', s). step P s s'} \<subseteq> measure (\<lambda>s. 2 * length (queue s) + length (activeWorkers s))"
    using step_measure by auto
qed

lemma finish_enabled:
  "k \<in> set (activeWorkers s) \<Longrightarrow>
   \<exists>s'. step P s s' \<and> world s' = snd (run_batch P k (world s))
        \<and> activeWorkers s' = removeAll k (activeWorkers s)
        \<and> queue s' = queue s
        \<and> finished s' = finished s @ [(k, succeeds P k (world s))]"
proof -
  assume k: "k \<in> set (activeWorkers s)"
  obtain r w' where rb: "run_batch P k (world s) = (r, w')" by (cases "run_batch P k (world s)")
  let ?s' = "s\<lparr>activeWorkers := removeAll k (activeWorkers s),
                 finished := finished s @ [(k, succeeds P k (world s))],
                 world := w',
                 rejected := (case r of Inl e \<Rightarrow> Some e | Inr u \<Rightarrow> rejected s)\<rparr>"
  have "step P s ?s'" using k rb by (rule step.finish)
  moreover have "world ?s' = snd (run_batch P k (world s))" using rb by simp
  ultimately show ?thesis by (intro exI [of _ ?s']) simp
qed

lemma start_enabled:
  "queue s \<noteq> [] \<Longrightarrow> length (activeWorkers s) < MAX_CONCURRENT_REQUESTS \<Longrightarrow> rejected s = None \<Longrightarrow>
   \<exists>s'. step P s s' \<and> activeWorkers s' = activeWorkers s @ [hd (queue s)]
        \<and> queue s' = tl (queue s) \<and> world s' = world s"
proof -
  assume q: "queue s \<noteq> []" and l: "length (activeWorkers s) < MAX_CONCURRENT_REQUESTS"
    and r: "rejected s = None"
  from q obtain k q' where kq: "queue s = k # q'" by (cases "queue s") auto
  have "step P s (s\<lparr>queue := q', activeWorkers := activeWorkers s @ [k]\<rparr>)"
    using kq l r by (rule step.start)
  then show ?thesis using kq by (intro exI [of _ "s\<lparr>queue := q', activeWorkers := activeWorkers s @ [k]\<rparr>"]) simp
qed

lemma stuck_iff:
  assumes "pool_inv P s"
  shows "(\<forall>s'. \<not> step P s s') \<longleftrightarrow> queue s = [] \<and> activeWorkers s = []"
proof
  assume stuck: "\<forall>s'. \<not> step P s s'"
  have a: "activeWorkers s = []"
  proof (rule ccontr)
    assume "activeWorkers s \<noteq> []"
    then obtain k where "k \<in> set (activeWorkers s)" by (cases "activeWorkers s") auto
    from finish_enabled [OF this] stuck show False by blast
  qed
  have "queue s = []"
  proof (rule ccontr)
    assume q: "queue s \<noteq> []"
    have "length (activeWorkers s) < MAX_CONCURRENT_REQUESTS"
      using a by (simp add: MAX_CONCURRENT_REQUESTS_def)
    moreover have "rejected s = None" using assms by (simp add: pool_inv_def)
    ultimately show False using start_enabled [OF q] stuck by blast
  qed
  with a show "queue s = [] \<and> activeWorkers s = []" by simp
next
  assume e: "queue s = [] \<and> activeWorkers s = []"
  show "\<forall>s'. \<not> step P s s'"
  proof (intro allI notI)
    fix s' assume "step P s s'"
    then show False using e by (cases rule: step.cases) auto
  qed
qed

lemma final_all_finished:
  assumes "pool_inv P s" "queue s = []" "activeWorkers s = []"
  shows "set (map fst (finished s)) = {0 ..< length (postBatches (posts P))}"
    and "distinct (map fst (finished s))"
proof -
  let ?n = "length (postBatches (posts P))"
  from assms(1) obtain j where j: "j \<le> ?n" "queue s = [j ..< ?n]"
    "distinct (activeWorkers s @ map fst (finished s))"
    "set (activeWorkers s @ map fst (finished s)) = {0 ..< j}"
    by (auto simp: pool_inv_def)
  from j(2) assms(2) have "[j ..< ?n] = []" by simp
  then have "?n = 0 \<or> ?n \<le> j" by (simp only: upt_eq_Nil_conv)
  then have "?n \<le> j" by (rule disjE) (simp_all only: le0)
  with j(1) have "j = ?n" by (simp only: le_antisym)
  with j(3,4) assms(3) show "set (map fst (finished s)) = {0 ..< ?n}"
    and "distinct (map fst (finished s))" by simp_all
qed

lemma active_bound_batches:
  assumes "pool_inv P s"
  shows "length (activeWorkers s) \<le> length (postBatches (posts P))"
    and "distinct (activeWorkers s)"
proof -
  let ?n = "length (postBatches (posts P))"
  from assms obtain j where j: "j \<le> ?n"
    "distinct (activeWorkers s @ map fst (finished s))"
    "set (activeWorkers s @ map fst (finished s)) = {0 ..< j}"
    by (auto simp: pool_inv_def)
  from j(2) show d: "distinct (activeWorkers s)" by simp
  from j(3) have "set (activeWorkers s) \<subseteq> {0 ..< j}" by auto
  then have "card (set (activeWorkers s)) \<le> card {0 ..< j}"
    by (intro card_mono) simp_all
  with d have "length (activeWorkers s) \<le> j" by (simp add: distinct_card)
  with j(1) show "length (activeWorkers s) \<le> ?n" by simp
qed

lemma length_postBatches: "length (postBatches ps) = (length ps + 7) div 8"
  by (simp add: postBatches_def length_postBatches_loop)

subsection \<open>Progress and failures of the batches\<close>








text \<open>
  C7. In every state of every execution at most six workers are active (and never more
  than there are batches); a worker is added only while fewer than six are active, and
  whenever the queue is not empty and fewer than six are active the next batch can be
  started, whatever number of workers has just finished. No execution goes on for ever, as
  long as every worker settles, and an execution can only stop with an empty queue, no
  active worker and every batch started and finished. With 20 posts there are 3 batches and
  at most 3 active workers.
\<close>

theorem pool_bounded:
  "(reachable P w0 s
      \<longrightarrow> length (activeWorkers s) \<le> 6 \<and> distinct (activeWorkers s)
          \<and> length (activeWorkers s) \<le> length (postBatches (posts P)))
   \<and> (step P s s' \<and> length (activeWorkers s) < length (activeWorkers s')
      \<longrightarrow> length (activeWorkers s) < 6)
   \<and> (reachable P w0 s \<and> queue s \<noteq> [] \<and> length (activeWorkers s) < 6
      \<longrightarrow> (\<exists>t. step P s t \<and> activeWorkers t = activeWorkers s @ [hd (queue s)]))
   \<and> wf {(t, s). step P s t}
   \<and> (reachable P w0 s \<and> (\<forall>t. \<not> step P s t)
      \<longrightarrow> queue s = [] \<and> activeWorkers s = []
          \<and> set (map fst (finished s)) = {0 ..< length (postBatches (posts P))})
   \<and> (length (posts P) = 20 \<and> reachable P w0 s
      \<longrightarrow> length (postBatches (posts P)) = 3 \<and> length (activeWorkers s) \<le> 3)"
proof -
  have c1: "reachable P w0 s
      \<longrightarrow> length (activeWorkers s) \<le> 6 \<and> distinct (activeWorkers s)
          \<and> length (activeWorkers s) \<le> length (postBatches (posts P))"
  proof
    assume "reachable P w0 s"
    then have i: "pool_inv P s" by (rule reachable_pool_inv)
    then have "length (activeWorkers s) \<le> 6"
      by (simp add: pool_inv_def MAX_CONCURRENT_REQUESTS_def)
    with active_bound_batches [OF i]
    show "length (activeWorkers s) \<le> 6 \<and> distinct (activeWorkers s)
          \<and> length (activeWorkers s) \<le> length (postBatches (posts P))" by simp
  qed
  have c2: "step P s s' \<and> length (activeWorkers s) < length (activeWorkers s')
      \<longrightarrow> length (activeWorkers s) < 6"
  proof
    assume a: "step P s s' \<and> length (activeWorkers s) < length (activeWorkers s')"
    then have "step P s s'" by simp
    then show "length (activeWorkers s) < 6"
    proof (cases rule: step.cases)
      case (start k q)
      then show ?thesis by (simp add: MAX_CONCURRENT_REQUESTS_def)
    next
      case (finish k r w')
      have "length (removeAll k (activeWorkers s)) \<le> length (activeWorkers s)"
        by (simp add: length_removeAll_less_eq)
      with a finish show ?thesis by simp
    qed
  qed
  have c3: "reachable P w0 s \<and> queue s \<noteq> [] \<and> length (activeWorkers s) < 6
      \<longrightarrow> (\<exists>t. step P s t \<and> activeWorkers t = activeWorkers s @ [hd (queue s)])"
  proof
    assume a: "reachable P w0 s \<and> queue s \<noteq> [] \<and> length (activeWorkers s) < 6"
    then have "pool_inv P s" using reachable_pool_inv by blast
    then have r: "rejected s = None" by (simp add: pool_inv_def)
    from a have q: "queue s \<noteq> []"
      and l: "length (activeWorkers s) < MAX_CONCURRENT_REQUESTS"
      by (simp_all add: MAX_CONCURRENT_REQUESTS_def)
    from start_enabled [OF q l r, of P]
    show "\<exists>t. step P s t \<and> activeWorkers t = activeWorkers s @ [hd (queue s)]" by blast
  qed
  have c4: "wf {(t, s). step P s t}" by (rule step_wf)
  have c5: "reachable P w0 s \<and> (\<forall>t. \<not> step P s t)
      \<longrightarrow> queue s = [] \<and> activeWorkers s = []
          \<and> set (map fst (finished s)) = {0 ..< length (postBatches (posts P))}"
  proof
    assume a: "reachable P w0 s \<and> (\<forall>t. \<not> step P s t)"
    then have i: "pool_inv P s" using reachable_pool_inv by blast
    with a have e: "queue s = []" "activeWorkers s = []" using stuck_iff [OF i] by simp_all
    from final_all_finished(1) [OF i e] e
    show "queue s = [] \<and> activeWorkers s = []
          \<and> set (map fst (finished s)) = {0 ..< length (postBatches (posts P))}" by simp
  qed
  have c6: "length (posts P) = 20 \<and> reachable P w0 s
      \<longrightarrow> length (postBatches (posts P)) = 3 \<and> length (activeWorkers s) \<le> 3"
  proof
    assume a: "length (posts P) = 20 \<and> reachable P w0 s"
    then have n: "length (postBatches (posts P)) = 3" by (simp add: length_postBatches)
    from a have "pool_inv P s" using reachable_pool_inv by blast
    from active_bound_batches(1) [OF this] n
    show "length (postBatches (posts P)) = 3 \<and> length (activeWorkers s) \<le> 3" by simp
  qed
  show ?thesis
    apply (intro conjI)
    subgoal by (rule c1)
    subgoal by (rule c2)
    subgoal by (rule c3)
    subgoal by (rule c4)
    subgoal by (rule c5)
    subgoal by (rule c6)
    done
qed

text \<open>An environment in which every call of the network fails, and the world at the start.\<close>

definition offline :: network where
  "offline = \<lparr>sdk_generateContent = (\<lambda>ch k. Inl \<lparr>status = None, message = None\<rparr>),
              fetch = (\<lambda>ch k. Inl \<lparr>status = None, message = None\<rparr>)\<rparr>"

definition world0 :: world where
  "world0 = \<lparr>console = [], clock = 0, calls = (\<lambda>ch. 0), progress = []\<rparr>"

definition scoring_of :: "network \<Rightarrow> WordPressPost list \<Rightarrow> scoring" where
  "scoring_of n ps =
     \<lparr>eng = (\<lambda>fault. []), net = n, provider = Gemini, apiKey = js ''k'', model = js ''m'',
      posts = ps\<rparr>"

theorem pool_bounded_witness:
  "reachable (scoring_of offline (replicate 20 \<lparr>post_id = 1, title_rendered = []\<rparr>)) world0
     (initial (scoring_of offline (replicate 20 \<lparr>post_id = 1, title_rendered = []\<rparr>)) world0)
   \<and> length (posts (scoring_of offline (replicate 20 \<lparr>post_id = 1, title_rendered = []\<rparr>))) = 20
   \<and> queue (initial (scoring_of offline (replicate 20 \<lparr>post_id = 1, title_rendered = []\<rparr>)) world0)
       = [0, 1, 2]
   \<and> length (activeWorkers
        (initial (scoring_of offline (replicate 20 \<lparr>post_id = 1, title_rendered = []\<rparr>)) world0)) \<le> 3
   \<and> (\<exists>t. step (scoring_of offline (replicate 20 \<lparr>post_id = 1, title_rendered = []\<rparr>))
              (initial (scoring_of offline (replicate 20 \<lparr>post_id = 1, title_rendered = []\<rparr>)) world0) t
            \<and> activeWorkers t = [0])
   \<and> reachable (scoring_of offline []) world0 (initial (scoring_of offline []) world0)
   \<and> (\<forall>t. \<not> step (scoring_of offline []) (initial (scoring_of offline []) world0) t)
   \<and> set (map fst (finished (initial (scoring_of offline []) world0))) = {}"
proof -
  let ?P = "scoring_of offline (replicate 20 \<lparr>post_id = 1, title_rendered = []\<rparr>)"
  let ?Q = "scoring_of offline []"
  have r: "reachable ?P world0 (initial ?P world0)" by (simp add: reachable_def)
  have l: "length (posts ?P) = 20" by (simp add: scoring_of_def)
  note t = pool_bounded [of ?P world0 "initial ?P world0"]
  from t r l have n: "length (postBatches (posts ?P)) = 3"
    and a: "length (activeWorkers (initial ?P world0)) \<le> 3" by blast+
  have "[0 ..< 3] = [0, 1, 2::nat]" by (simp add: upt_rec)
  with n have q: "queue (initial ?P world0) = [0, 1, 2]" by (simp add: initial_def)
  have a0: "activeWorkers (initial ?P world0) = []" by (simp add: initial_def)
  from q have qn: "queue (initial ?P world0) \<noteq> []" by simp
  from a0 have l6: "length (activeWorkers (initial ?P world0)) < 6" by simp
  from t r qn l6
  have "\<exists>t. step ?P (initial ?P world0) t
          \<and> activeWorkers t = activeWorkers (initial ?P world0) @ [hd (queue (initial ?P world0))]"
    by blast
  with q a0 have s: "\<exists>t. step ?P (initial ?P world0) t \<and> activeWorkers t = [0]" by simp
  have r': "reachable ?Q world0 (initial ?Q world0)" by (simp add: reachable_def)
  have pb: "postBatches (posts ?Q) = []"
    by (simp add: scoring_of_def postBatches_def postBatches_loop_stop)
  have e: "queue (initial ?Q world0) = []" "activeWorkers (initial ?Q world0) = []"
    using pb by (simp_all add: initial_def)
  have stuck: "\<forall>t. \<not> step ?Q (initial ?Q world0) t"
    using stuck_iff [OF reachable_pool_inv [OF r']] e by simp
  from pool_bounded [of ?Q world0 "initial ?Q world0"] r' stuck
  have "set (map fst (finished (initial ?Q world0))) = {0 ..< length (postBatches (posts ?Q))}"
    by blast
  with pb have f: "set (map fst (finished (initial ?Q world0))) = {}" by simp
  show ?thesis
    apply (intro conjI)
    subgoal by (rule r)
    subgoal by (rule l)
    subgoal by (rule q)
    subgoal by (rule a)
    subgoal by (rule s)
    subgoal by (rule r')
    subgoal by (rule stuck)
    subgoal by (rule f)
    done
qed







subsection \<open>The ids of the records handed to \<^verbatim>\<open>onProgress\<close>\<close>







end
